theory Spec2Isabelle
  imports Complex_Main "HOL-Library.Word" "HOL-Library.Multiset"
begin

unbundle bit_operations_syntax

section \<open>Colors and quantization\<close>

text \<open>
  The Go struct \<^verbatim>\<open>type RGB struct { R, G, B uint8 }\<close>. The channels are 8-bit
  machine integers.
\<close>

datatype RGB = RGB (R: "8 word") (G: "8 word") (B: "8 word")

text \<open>
  \<^verbatim>\<open>quantizeRGB(c RGB, step uint8) RGB\<close> computes \<^verbatim>\<open>(c.R / step) * step\<close> on
  each channel in \<^verbatim>\<open>uint8\<close> arithmetic. Go panics on an integer division by
  zero, which is the result \<open>None\<close> here.
\<close>

definition quantizeRGB :: "RGB \<Rightarrow> 8 word \<Rightarrow> RGB option" where
  "quantizeRGB c step =
     (if step = 0 then None
      else Some (RGB ((R c div step) * step) ((G c div step) * step) ((B c div step) * step)))"

text \<open>\<^verbatim>\<open>isBlackOrWhite\<close>: near-black or near-white colors.\<close>

definition isBlackOrWhite :: "RGB \<Rightarrow> bool" where
  "isBlackOrWhite c =
     ((R c \<le> 16 \<and> G c \<le> 16 \<and> B c \<le> 16) \<or> (R c \<ge> 240 \<and> G c \<ge> 240 \<and> B c \<ge> 240))"

text \<open>
  \<^verbatim>\<open>colorDistance\<close>: the differences are taken in \<^verbatim>\<open>int\<close> and the sum of their
  squares (at most 195075, far below any overflow) is converted to \<^verbatim>\<open>float64\<close>,
  which represents every such integer exactly. The result is modelled as the real
  number it denotes.
\<close>

definition colorDistance :: "RGB \<Rightarrow> RGB \<Rightarrow> real" where
  "colorDistance a b =
     (let dr = uint (R a) - uint (R b);
          dg = uint (G a) - uint (G b);
          db = uint (B a) - uint (B b)
      in real_of_int (dr * dr + dg * dg + db * db))"

section \<open>Images\<close>

text \<open>
  \<^verbatim>\<open>image.Rectangle\<close> with its \<^verbatim>\<open>Dx\<close>, \<^verbatim>\<open>Dy\<close> and the constructor
  \<^verbatim>\<open>image.Rect\<close>, which orders its corners. Go's \<^verbatim>\<open>int\<close> is modelled as an
  unbounded integer: the sizes of a display are far from 64-bit overflow.
\<close>

record Rectangle =
  MinX :: int
  MinY :: int
  MaxX :: int
  MaxY :: int

definition Dx :: "Rectangle \<Rightarrow> int" where
  "Dx r = MaxX r - MinX r"

definition Dy :: "Rectangle \<Rightarrow> int" where
  "Dy r = MaxY r - MinY r"

definition Rect :: "int \<Rightarrow> int \<Rightarrow> int \<Rightarrow> int \<Rightarrow> Rectangle" where
  "Rect x0 y0 x1 y1 =
     \<lparr>MinX = (if x0 > x1 then x1 else x0), MinY = (if y0 > y1 then y1 else y0),
      MaxX = (if x0 > x1 then x0 else x1), MaxY = (if y0 > y1 then y0 else y1)\<rparr>"

text \<open>
  An \<^verbatim>\<open>image.Image\<close> is its bounds and what \<^verbatim>\<open>img.At(x, y).RGBA()\<close> returns at each
  point: four \<^verbatim>\<open>uint32\<close> values.
\<close>

type_synonym rgba = "32 word \<times> 32 word \<times> 32 word \<times> 32 word"

record Image =
  Bounds :: Rectangle
  At :: "int \<Rightarrow> int \<Rightarrow> rgba"

text \<open>
  Go's integer division truncates towards zero.
\<close>

definition quo :: "int \<Rightarrow> int \<Rightarrow> int" where
  "quo a b = sgn a * sgn b * (\<bar>a\<bar> div \<bar>b\<bar>)"

text \<open>
  \<^verbatim>\<open>downscale\<close>. The interpolation \<^verbatim>\<open>draw.BiLinear.Scale\<close> belongs to a library; it
  fills the pixels of the new image and is the parameter \<open>scale\<close>, given the
  destination rectangle, the source image and the source rectangle.
\<close>

definition downscale ::
  "(Rectangle \<Rightarrow> Image \<Rightarrow> Rectangle \<Rightarrow> int \<Rightarrow> int \<Rightarrow> rgba) \<Rightarrow> Image \<Rightarrow> Image" where
  "downscale scale img =
     (let bounds = Bounds img;
          w = quo (Dx bounds) 10;
          h = quo (Dy bounds) 10;
          w = (if w < 1 then 1 else w);
          h = (if h < 1 then 1 else h);
          resized = Rect 0 0 w h
      in \<lparr>Bounds = resized, At = scale resized img bounds\<rparr>)"

section \<open>Histograms of quantized colors\<close>

text \<open>
  The body shared by the pixel loops: \<^verbatim>\<open>r, g, b, _ := img.At(x, y).RGBA()\<close> followed by
  \<^verbatim>\<open>uint8(r >> 8)\<close> on each channel.
\<close>

definition pixelAt :: "Image \<Rightarrow> int \<Rightarrow> int \<Rightarrow> RGB" where
  "pixelAt img x y =
     (case At img x y of
        (r, g, b, a) \<Rightarrow> RGB (ucast (drop_bit 8 r)) (ucast (drop_bit 8 g)) (ucast (drop_bit 8 b)))"

text \<open>
  The pixels in the order the nested loops visit them: \<^verbatim>\<open>y\<close> from \<^verbatim>\<open>Min.Y\<close> below
  \<^verbatim>\<open>Max.Y\<close>, and inside \<^verbatim>\<open>x\<close> from \<^verbatim>\<open>Min.X\<close> below \<^verbatim>\<open>Max.X\<close>.
\<close>

definition scan :: "Image \<Rightarrow> RGB list" where
  "scan img =
     concat (map (\<lambda>y. map (\<lambda>x. pixelAt img x y) [MinX (Bounds img)..MaxX (Bounds img) - 1])
                 [MinY (Bounds img)..MaxY (Bounds img) - 1])"

text \<open>
  A \<^verbatim>\<open>map[RGB]int\<close> is an association list with one pair for each key.
  \<^verbatim>\<open>countMap[color]++\<close> adds one to the count of a key, a missing key counting 0.
  A count never exceeds the number of pixels, so the counts are unbounded integers.
\<close>

type_synonym countMap = "(RGB \<times> int) list"

fun incr :: "RGB \<Rightarrow> countMap \<Rightarrow> countMap" where
  "incr c [] = [(c, 1)]"
| "incr c ((k, v) # m) = (if k = c then (k, v + 1) # m else (k, v) # incr c m)"

definition quantStep :: "8 word" where
  "quantStep = 16"

text \<open>The first loop of \<^verbatim>\<open>mostFrequentColor\<close>, which skips near-black and near-white.\<close>

fun countFiltered :: "RGB list \<Rightarrow> countMap \<Rightarrow> countMap option" where
  "countFiltered [] m = Some m"
| "countFiltered (p # ps) m =
     (case quantizeRGB p quantStep of
        None \<Rightarrow> None
      | Some color \<Rightarrow>
          (if isBlackOrWhite color then countFiltered ps m
           else countFiltered ps (incr color m)))"

text \<open>The fallback loop of \<^verbatim>\<open>mostFrequentColor\<close> and the loop of \<^verbatim>\<open>topColors\<close>.\<close>

fun countAll :: "RGB list \<Rightarrow> countMap \<Rightarrow> countMap option" where
  "countAll [] m = Some m"
| "countAll (p # ps) m =
     (case quantizeRGB p quantStep of
        None \<Rightarrow> None
      | Some color \<Rightarrow> countAll ps (incr color m))"

text \<open>
  \<^verbatim>\<open>for col, cnt := range countMap\<close> with the running maximum. The comparison is
  strict, and the variables start at 0 and at the zero color.
\<close>

fun maxLoop :: "countMap \<Rightarrow> int \<Rightarrow> RGB \<Rightarrow> RGB" where
  "maxLoop [] maxCount mostColor = mostColor"
| "maxLoop ((col, cnt) # rest) maxCount mostColor =
     (if cnt > maxCount then maxLoop rest cnt col else maxLoop rest maxCount mostColor)"

text \<open>
  \<^verbatim>\<open>mostFrequentColor\<close>. Go ranges over a map in an order it does not specify: the
  parameter \<open>rangeOrder\<close> gives the order in which the pairs of a map are visited.
\<close>

definition mostFrequentColor :: "(countMap \<Rightarrow> countMap) \<Rightarrow> Image \<Rightarrow> RGB option" where
  "mostFrequentColor rangeOrder img =
     (case countFiltered (scan img) [] of
        None \<Rightarrow> None
      | Some countMap \<Rightarrow>
          (case (if length countMap = 0 then countAll (scan img) countMap else Some countMap) of
             None \<Rightarrow> None
           | Some countMap' \<Rightarrow> Some (maxLoop (rangeOrder countMap') 0 (RGB 0 0 0))))"

text \<open>
  \<^verbatim>\<open>topColors\<close>. The pairs are collected in the order of the range, sorted with
  \<^verbatim>\<open>sort.Slice\<close> by decreasing count, and cut to \<^verbatim>\<open>topN\<close> entries. \<^verbatim>\<open>sort.Slice\<close>
  is not stable and the range order is arbitrary, so the order among equal counts
  is arbitrary; here it is the range order. Slicing \<^verbatim>\<open>sorted[:topN]\<close> with a
  negative \<^verbatim>\<open>topN\<close> panics. The counter \<^verbatim>\<open>total\<close> of the source is never read
  and is left out.
\<close>

datatype kv = KV (Color: RGB) (Count: int)

definition topColors :: "(countMap \<Rightarrow> countMap) \<Rightarrow> Image \<Rightarrow> int \<Rightarrow> kv list option" where
  "topColors rangeOrder img topN =
     (case countAll (scan img) [] of
        None \<Rightarrow> None
      | Some countMap \<Rightarrow>
          (let sorted = sort_key (\<lambda>e. - Count e) (map (\<lambda>(k, v). KV k v) (rangeOrder countMap))
           in if int (length sorted) > topN
              then (if topN < 0 then None else Some (take (nat topN) sorted))
              else Some sorted))"

text \<open>
  The quantized colors of the pixels of an image, in scan order, and those that are
  neither near-black nor near-white.
\<close>

definition buckets :: "Image \<Rightarrow> RGB list" where
  "buckets img = List.map_filter (\<lambda>p. quantizeRGB p quantStep) (scan img)"

definition kept :: "Image \<Rightarrow> RGB list" where
  "kept img = filter (\<lambda>c. \<not> isBlackOrWhite c) (buckets img)"

text \<open>
  Two small images: one with a near-black pixel, two orange pixels and a white pixel,
  and one with near-black and near-white pixels only.
\<close>

definition testImage :: Image where
  "testImage =
     \<lparr>Bounds = Rect 0 0 2 2,
      At = (\<lambda>x y. if x = 0 \<and> y = 0 then (0, 0, 0, 0xFFFF)
                  else if x = 1 \<and> y = 1 then (0xFFFF, 0xFFFF, 0xFFFF, 0xFFFF)
                  else (0xFFFF, 0x2A2A, 0, 0xFFFF))\<rparr>"

definition bwImage :: Image where
  "bwImage =
     \<lparr>Bounds = Rect 0 0 3 1,
      At = (\<lambda>x y. if x = 0 then (0x1F1F, 0x0101, 0, 0xFFFF)
                  else (0xFFFF, 0xF0F0, 0xFAFA, 0xFFFF))\<rparr>"

text \<open>An image of 3 by 3 pixels: one green, one blue and seven red.\<close>

definition nineImage :: Image where
  "nineImage =
     \<lparr>Bounds = Rect 0 0 3 3,
      At = (\<lambda>x y. if x = 0 \<and> y = 0 then (0, 0xFFFF, 0, 0xFFFF)
                  else if x = 1 \<and> y = 0 then (0, 0, 0xFFFF, 0xFFFF)
                  else (0xFFFF, 0, 0, 0xFFFF))\<rparr>"

section \<open>Floating-point numbers\<close>

text \<open>
  A \<^verbatim>\<open>float64\<close> is a finite value, an infinity or a NaN. A finite value is the real
  number it denotes; the sign of a zero is not modelled.
\<close>

datatype float64 = Finite real | PosInf | NegInf | NaN

text \<open>The number of binary digits of a natural number.\<close>

fun bitLen :: "nat \<Rightarrow> nat" where
  "bitLen n = (if n = 0 then 0 else Suc (bitLen (n div 2)))"

declare bitLen.simps [simp del]

text \<open>
  For a positive \<open>x\<close>, the integer \<open>e\<close> with \<open>2 ^ e \<le> x < 2 ^ (e + 1)\<close>, and the
  powers of 2 with an integer exponent.
\<close>

definition ilog2 :: "real \<Rightarrow> int" where
  "ilog2 x =
     (if 1 \<le> x then int (bitLen (nat \<lfloor>x\<rfloor>)) - 1
      else - int (bitLen (nat (\<lceil>1 / x\<rceil> - 1))))"

definition pow2 :: "int \<Rightarrow> real" where
  "pow2 e = (if 0 \<le> e then 2 ^ nat e else 1 / 2 ^ nat (- e))"

text \<open>Rounding to the nearest integer, a tie going to the even one.\<close>

definition roundEven :: "real \<Rightarrow> int" where
  "roundEven x =
     (let f = \<lfloor>x\<rfloor>; r = x - of_int f
      in if r < 1 / 2 then f else if 1 / 2 < r then f + 1 else if even f then f else f + 1)"

text \<open>
  The result of an arithmetic operation whose exact value is \<open>x\<close>, in the default
  rounding mode of IEEE 754 that Go uses: the nearest number with a significand of 53
  bits, a tie going to the even significand; below \<open>2 ^ (- 1022)\<close> the spacing is that
  of the subnormal numbers, and a result of magnitude \<open>2 ^ 1024\<close> or more is an
  infinity.
\<close>

definition round64 :: "real \<Rightarrow> float64" where
  "round64 x =
     (if x = 0 then Finite 0
      else (let e = max (ilog2 \<bar>x\<bar>) (- 1022);
                ulp = pow2 (e - 52);
                y = of_int (roundEven (x / ulp)) * ulp
            in if pow2 1024 \<le> \<bar>y\<bar> then (if 0 < x then PosInf else NegInf) else Finite y))"

text \<open>The conversion \<^verbatim>\<open>float64(i)\<close> of an \<^verbatim>\<open>int\<close>, the division and the multiplication.\<close>

definition ofInt :: "int \<Rightarrow> float64" where
  "ofInt i = round64 (real_of_int i)"

fun fdiv :: "float64 \<Rightarrow> float64 \<Rightarrow> float64" where
  "fdiv NaN y = NaN"
| "fdiv x NaN = NaN"
| "fdiv (Finite a) (Finite b) =
     (if b = 0 then (if a = 0 then NaN else if 0 < a then PosInf else NegInf)
      else round64 (a / b))"
| "fdiv (Finite a) y = Finite 0"
| "fdiv PosInf (Finite b) = (if 0 \<le> b then PosInf else NegInf)"
| "fdiv NegInf (Finite b) = (if 0 \<le> b then NegInf else PosInf)"
| "fdiv x y = NaN"

fun fmul :: "float64 \<Rightarrow> float64 \<Rightarrow> float64" where
  "fmul NaN y = NaN"
| "fmul x NaN = NaN"
| "fmul (Finite a) (Finite b) = round64 (a * b)"
| "fmul (Finite a) PosInf = (if a = 0 then NaN else if 0 < a then PosInf else NegInf)"
| "fmul (Finite a) NegInf = (if a = 0 then NaN else if 0 < a then NegInf else PosInf)"
| "fmul PosInf (Finite b) = (if b = 0 then NaN else if 0 < b then PosInf else NegInf)"
| "fmul NegInf (Finite b) = (if b = 0 then NaN else if 0 < b then NegInf else PosInf)"
| "fmul PosInf PosInf = PosInf"
| "fmul NegInf NegInf = PosInf"
| "fmul x y = NegInf"

text \<open>The real number a finite value denotes; 0 for an infinity and for NaN.\<close>

definition value64 :: "float64 \<Rightarrow> real" where
  "value64 x = (case x of Finite r \<Rightarrow> r | PosInf \<Rightarrow> 0 | NegInf \<Rightarrow> 0 | NaN \<Rightarrow> 0)"

section \<open>Color names and the statistics log\<close>

text \<open>\<^verbatim>\<open>colorName\<close>: the first case of the switch that applies.\<close>

definition colorName :: "RGB \<Rightarrow> string" where
  "colorName c =
     (let r = R c; g = G c; b = B c in
      if r > 200 \<and> g < 80 \<and> b < 80 then ''light red''
      else if r > 150 \<and> g < 80 \<and> b < 80 then ''red''
      else if r > 100 \<and> r < 180 \<and> g > 60 \<and> g < 120 \<and> b < 80 then ''brown''
      else if g > 200 \<and> r > 200 \<and> b < 100 then ''light yellow''
      else if r > 200 \<and> g > 200 \<and> b < 100 then ''yellow''
      else if g > 200 \<and> r < 100 \<and> b < 100 then ''light green''
      else if g > 150 \<and> r < 100 \<and> b < 100 then ''green''
      else if g > 100 \<and> b > 100 \<and> r < 100 then ''teal''
      else if b > 200 \<and> r < 100 \<and> g < 100 then ''light blue''
      else if b > 100 \<and> r < 80 \<and> g < 80 then ''dark blue''
      else if b > 200 \<and> r > 200 \<and> g < 100 then ''pink''
      else if r > 200 \<and> g < 100 \<and> b > 200 then ''magenta''
      else if r < 100 \<and> g > 200 \<and> b > 200 then ''cyan''
      else if r > 200 \<and> g > 200 \<and> b > 200 then ''white''
      else if r < 60 \<and> g < 60 \<and> b < 60 then ''black''
      else if r > 180 \<and> g > 100 \<and> b < 100 then ''orange''
      else if r > 180 \<and> g > 100 \<and> b > 100 then ''peach''
      else if r > 150 \<and> g < 100 \<and> b > 100 then ''violet''
      else ''unknown color'')"

text \<open>
  \<^verbatim>\<open>ColorStat\<close> and \<^verbatim>\<open>LogEntry\<close>. The channel fields of \<^verbatim>\<open>ColorStat\<close> are named
  \<open>StatR\<close>, \<open>StatG\<close>, \<open>StatB\<close> here, the names \<open>R\<close>, \<open>G\<close>, \<open>B\<close> being taken.
\<close>

record ColorStat =
  StatR :: "8 word"
  StatG :: "8 word"
  StatB :: "8 word"
  Name :: string
  Percent :: float64

record LogEntry =
  Timestamp :: string
  ScreenSize :: string
  TopColors :: "ColorStat list"

text \<open>Decimal printing of an integer, as the verb \<^verbatim>\<open>%d\<close> does.\<close>

fun showNat :: "nat \<Rightarrow> string" where
  "showNat n =
     (if n < 10 then [char_of (48 + n)] else showNat (n div 10) @ [char_of (48 + n mod 10)])"

definition showInt :: "int \<Rightarrow> string" where
  "showInt i = (if i < 0 then CHR ''-'' # showNat (nat (- i)) else showNat (nat i))"

text \<open>
  The first loop of \<^verbatim>\<open>logTopColorsJSON\<close>: one \<^verbatim>\<open>ColorStat\<close> for each entry, with
  \<^verbatim>\<open>float64(entry.Count) / float64(totalPixels) * 100\<close>, each operation rounding its
  result. The constant 100 is a \<^verbatim>\<open>float64\<close> exactly.
\<close>

definition colorStats :: "kv list \<Rightarrow> int \<Rightarrow> ColorStat list" where
  "colorStats entries totalPixels =
     map (\<lambda>entry. \<lparr>StatR = R (Color entry), StatG = G (Color entry), StatB = B (Color entry),
                   Name = colorName (Color entry),
                   Percent = fmul (fdiv (ofInt (Count entry)) (ofInt totalPixels))
                                  (Finite 100)\<rparr>) entries"

text \<open>
  The functions of Go's standard library that \<^verbatim>\<open>logTopColorsJSON\<close> calls on the
  contents of the file are parameters: \<^verbatim>\<open>json.Unmarshal\<close> into a \<^verbatim>\<open>[]LogEntry\<close> and
  into a \<^verbatim>\<open>LogEntry\<close> (\<open>None\<close> when it returns an error), the indenting
  \<^verbatim>\<open>json.Encoder\<close> on a \<^verbatim>\<open>[]LogEntry\<close> (\<open>None\<close> when it returns an error), and
  \<^verbatim>\<open>bytes.TrimSpace\<close>.
\<close>

record stdlib =
  unmarshalEntries :: "string \<Rightarrow> LogEntry list option"
  unmarshalEntry :: "string \<Rightarrow> LogEntry option"
  encodeEntries :: "LogEntry list \<Rightarrow> string option"
  trimSpace :: "string \<Rightarrow> string"

text \<open>\<^verbatim>\<open>bytes.Split(data, []byte{'\n'})\<close>: the pieces between the newlines.\<close>

fun splitLines :: "string \<Rightarrow> string list" where
  "splitLines [] = [[]]"
| "splitLines (c # cs) =
     (if c = CHR 0x0A then [] # splitLines cs
      else (case splitLines cs of [] \<Rightarrow> [[c]] | l # ls \<Rightarrow> (c # l) # ls))"

text \<open>
  The recovery loop over the lines of a file that is not a JSON array: blank lines
  are skipped, a line that parses is kept, and a line that does not is dropped.
\<close>

fun recoverLines :: "stdlib \<Rightarrow> string list \<Rightarrow> LogEntry list" where
  "recoverLines lib [] = []"
| "recoverLines lib (line # rest) =
     (if length (trimSpace lib line) = 0 then recoverLines lib rest
      else (case unmarshalEntry lib line of
              Some e \<Rightarrow> e # recoverLines lib rest
            | None \<Rightarrow> recoverLines lib rest))"

text \<open>
  The state of the log file: what \<^verbatim>\<open>os.ReadFile\<close> returns (\<open>None\<close> when it
  fails, as it does when the file does not exist), and whether opening the file for
  writing and \<^verbatim>\<open>f.Sync\<close> fail.
\<close>

record fileSys =
  contents :: "string option"
  openFails :: bool
  syncFails :: bool

datatype error = OpenError | EncodeError | SyncError

text \<open>The entries read back from the file, before the new one is appended.\<close>

definition readEntries :: "stdlib \<Rightarrow> string option \<Rightarrow> LogEntry list" where
  "readEntries lib file =
     (case file of
        None \<Rightarrow> []
      | Some data \<Rightarrow>
          (if length data > 0
           then (case unmarshalEntries lib data of
                   Some entries \<Rightarrow> entries
                 | None \<Rightarrow> recoverLines lib (splitLines data))
           else []))"

definition newLogEntry :: "string \<Rightarrow> Rectangle \<Rightarrow> kv list \<Rightarrow> int \<Rightarrow> LogEntry" where
  "newLogEntry now bounds topList totalPixels =
     \<lparr>Timestamp = now,
      ScreenSize = showInt (Dx bounds) @ ''x'' @ showInt (Dy bounds),
      TopColors = colorStats topList totalPixels\<rparr>"

text \<open>
  \<^verbatim>\<open>logTopColorsJSON\<close>, the version that rewrites the file as one array. \<open>now\<close> is
  the formatted time of the call. The file is opened with \<^verbatim>\<open>O_TRUNC\<close>, so it is empty
  when the encoder fails after a successful open.
\<close>

definition logTopColorsJSON ::
  "stdlib \<Rightarrow> string \<Rightarrow> fileSys \<Rightarrow> Rectangle \<Rightarrow> kv list \<Rightarrow> int \<Rightarrow> error option \<times> fileSys" where
  "logTopColorsJSON lib now fs bounds topList totalPixels =
     (let logEntry = newLogEntry now bounds topList totalPixels;
          entries = readEntries lib (contents fs) @ [logEntry]
      in if openFails fs then (Some OpenError, fs)
         else (case encodeEntries lib entries of
                 None \<Rightarrow> (Some EncodeError, fs\<lparr>contents := Some []\<rparr>)
               | Some out \<Rightarrow>
                   (if syncFails fs then (Some SyncError, fs\<lparr>contents := Some out\<rparr>)
                    else (None, fs\<lparr>contents := Some out\<rparr>))))"

text \<open>Lines joined by newlines: the text of a line-delimited log.\<close>

fun joinLines :: "string list \<Rightarrow> string" where
  "joinLines [] = []"
| "joinLines [l] = l"
| "joinLines (l # ls) = l @ CHR 0x0A # joinLines ls"

text \<open>
  A small stand-in for the library functions, used to run the log on an example: two
  lines parse as entries, the encoder lists the timestamps.
\<close>

definition toyEntry :: "string \<Rightarrow> LogEntry" where
  "toyEntry t = \<lparr>Timestamp = t, ScreenSize = ''1x1'', TopColors = []\<rparr>"

definition toyLib :: stdlib where
  "toyLib =
     \<lparr>unmarshalEntries = (\<lambda>s. if s = ''[]'' then Some [] else None),
      unmarshalEntry = (\<lambda>s. if s = ''A'' then Some (toyEntry ''a'')
                            else if s = ''B'' then Some (toyEntry ''b'') else None),
      encodeEntries = (\<lambda>es. Some (concat (map (\<lambda>e. Timestamp e @ '';'') es))),
      trimSpace = filter (\<lambda>c. c \<noteq> CHR '' '')\<rparr>"

section \<open>Configuration and the emission decision\<close>

text \<open>
  \<^verbatim>\<open>Config\<close>, loaded from the YAML file. \<^verbatim>\<open>COLOR_CHANGE_THRESHOLD\<close> is a
  \<^verbatim>\<open>float64\<close>; a finite value is the real number it denotes.
\<close>

record EnvT =
  HA_URL :: string
  HA_TOKEN :: string
  LED_ENTITY :: string
  EXPORT_JSON :: bool
  EXPORT_SCREENSHOT :: bool
  COLOR_CHANGE_THRESHOLD :: real
  UPDATE_INTERVAL_MS :: int

record Config =
  Env :: EnvT

text \<open>
  The local variable \<^verbatim>\<open>colorChangeThreshold := 32.0\<close> of \<^verbatim>\<open>colorUpdateLoop\<close>.
\<close>

definition colorChangeThreshold :: real where
  "colorChangeThreshold = 32"

text \<open>
  The decision of a cycle, from \<^verbatim>\<open>shouldCallHA := false\<close> to the end of the
  \<^verbatim>\<open>if prevColor == nil\<close> statement, as a function of the threshold it compares with.
\<close>

definition shouldCallHA :: "real \<Rightarrow> RGB option \<Rightarrow> RGB \<Rightarrow> bool" where
  "shouldCallHA threshold prevColor mostColor =
     (case prevColor of
        None \<Rightarrow> True
      | Some prev \<Rightarrow> colorDistance mostColor prev \<ge> threshold)"

text \<open>
  The part of a cycle of \<^verbatim>\<open>colorUpdateLoop\<close> that follows the computation of the
  dominant color: the decision, then the call of \<^verbatim>\<open>setLEDState\<close> when a token is
  configured. The result is the color sent to the lighting controller, if any, and the
  new value of \<^verbatim>\<open>prevColor\<close>, which is set whether or not the call succeeds.
\<close>

definition emitStep :: "Config \<Rightarrow> RGB option \<Rightarrow> RGB \<Rightarrow> RGB option \<times> RGB option" where
  "emitStep appConfig prevColor mostColor =
     (let shouldCall = shouldCallHA colorChangeThreshold prevColor mostColor;
          token = HA_TOKEN (Env appConfig)
      in if token = [] then (None, prevColor)
         else if shouldCall then (Some mostColor, Some mostColor)
         else (None, prevColor))"

text \<open>
  A cycle of \<^verbatim>\<open>colorUpdateLoop\<close> from the captured frame on: the frame is downscaled,
  the dominant color of the small image is computed, and the decision and the call
  follow. \<open>None\<close> is a panic.
\<close>

definition cycle ::
  "(countMap \<Rightarrow> countMap) \<Rightarrow> (Rectangle \<Rightarrow> Image \<Rightarrow> Rectangle \<Rightarrow> int \<Rightarrow> int \<Rightarrow> rgba)
     \<Rightarrow> Config \<Rightarrow> RGB option \<Rightarrow> Image \<Rightarrow> (RGB option \<times> RGB option) option" where
  "cycle rangeOrder scale appConfig prevColor img =
     (let smallImg = downscale scale img
      in case mostFrequentColor rangeOrder smallImg of
           None \<Rightarrow> None
         | Some mostColor \<Rightarrow> Some (emitStep appConfig prevColor mostColor))"

text \<open>
  Frames of 20 by 10 pixels of one color, and a stand-in for the interpolation that
  takes every tenth pixel; on a frame of one color it returns that color, as the
  bilinear interpolation does.
\<close>

definition uniformFrame :: "rgba \<Rightarrow> Image" where
  "uniformFrame c = \<lparr>Bounds = Rect 0 0 20 10, At = (\<lambda>x y. c)\<rparr>"

definition sampleScale :: "Rectangle \<Rightarrow> Image \<Rightarrow> Rectangle \<Rightarrow> int \<Rightarrow> int \<Rightarrow> rgba" where
  "sampleScale dst src sr x y = At src (MinX sr + 10 * x) (MinY sr + 10 * y)"

text \<open>
  Two configurations with a token: one with the threshold 32 of the sample
  configuration file, one with the threshold 1000.
\<close>

definition sampleConfig :: Config where
  "sampleConfig =
     \<lparr>Env = \<lparr>HA_URL = ''http://your-homeassistant:8123'', HA_TOKEN = ''token'',
              LED_ENTITY = ''light.your_led_strip'', EXPORT_JSON = False,
              EXPORT_SCREENSHOT = False, COLOR_CHANGE_THRESHOLD = 32,
              UPDATE_INTERVAL_MS = 100\<rparr>\<rparr>"

definition strictConfig :: Config where
  "strictConfig =
     \<lparr>Env = \<lparr>HA_URL = ''http://your-homeassistant:8123'', HA_TOKEN = ''token'',
              LED_ENTITY = ''light.your_led_strip'', EXPORT_JSON = False,
              EXPORT_SCREENSHOT = False, COLOR_CHANGE_THRESHOLD = 1000,
              UPDATE_INTERVAL_MS = 100\<rparr>\<rparr>"

section \<open>The tray menu and the update loop as a transition system\<close>

text \<open>
  The goroutine started by \<^verbatim>\<open>onReady\<close> serves the menu: it waits in its
  \<^verbatim>\<open>select\<close>, or it is blocked in \<^verbatim>\<open>quitChan <- struct{}{}\<close>, the channel being
  unbuffered. Each running \<^verbatim>\<open>colorUpdateLoop\<close> goroutine is at the test of
  \<^verbatim>\<open>for running\<close>, inside the body of a cycle, or in the \<^verbatim>\<open>select\<close> that ends it.
  The steps of the goroutines interleave; every read and write of \<^verbatim>\<open>running\<close> is
  one step.
\<close>

datatype loopPc = AtCheck | InCycle | AtSelect

datatype menuPc = Waiting | Sending

record sys =
  running :: bool
  menu :: menuPc
  loops :: "loopPc list"
  startEnabled :: bool
  stopEnabled :: bool
  exited :: bool

definition initial :: sys where
  "initial = \<lparr>running = False, menu = Waiting, loops = [],
              startEnabled = True, stopEnabled = False, exited = False\<rparr>"

text \<open>
  The case \<^verbatim>\<open><-mStart.ClickedCh\<close>: inside \<^verbatim>\<open>if !running\<close> the flag is set and
  \<^verbatim>\<open>go colorUpdateLoop()\<close> starts a loop. The request for the current state of the
  light changes nothing modelled here.
\<close>

definition onStart :: "sys \<Rightarrow> sys" where
  "onStart s =
     (if \<not> running s
      then s\<lparr>running := True, startEnabled := False, stopEnabled := True,
             loops := loops s @ [AtCheck]\<rparr>
      else s)"

text \<open>
  The case \<^verbatim>\<open><-mStop.ClickedCh\<close>: inside \<^verbatim>\<open>if running\<close> the flag is cleared and the
  goroutine sends on \<^verbatim>\<open>quitChan\<close>, where it stays until a loop receives.
\<close>

definition onStop :: "sys \<Rightarrow> sys" where
  "onStop s =
     (if running s
      then s\<lparr>running := False, startEnabled := True, stopEnabled := False, menu := Sending\<rparr>
      else s)"

definition dropAt :: "nat \<Rightarrow> 'a list \<Rightarrow> 'a list" where
  "dropAt i xs = take i xs @ drop (Suc i) xs"

text \<open>
  The events: the five menu items, and for the loop goroutine at position \<open>i\<close> the
  test of \<^verbatim>\<open>for running\<close>, the body of a cycle (which ends at the \<^verbatim>\<open>select\<close>, or in
  \<^verbatim>\<open>logger.Fatal\<close>, which exits the process), and the two cases of the \<^verbatim>\<open>select\<close>.
  An event that cannot happen in a state gives \<open>None\<close>.
\<close>

datatype event =
  ClickStart | ClickStop | ClickTurnOn | ClickTurnOff | ClickQuit
| LoopCheck nat | LoopBody nat | LoopFatal nat | LoopTimeout nat | LoopQuit nat

definition atPc :: "sys \<Rightarrow> nat \<Rightarrow> loopPc \<Rightarrow> bool" where
  "atPc s i pc = (i < length (loops s) \<and> loops s ! i = pc)"

fun fire :: "event \<Rightarrow> sys \<Rightarrow> sys option" where
  "fire ev s =
     (if exited s then None
      else (case ev of
          ClickStart \<Rightarrow> if menu s = Waiting then Some (onStart s) else None
        | ClickStop \<Rightarrow> if menu s = Waiting then Some (onStop s) else None
        | ClickTurnOn \<Rightarrow> if menu s = Waiting then Some s else None
        | ClickTurnOff \<Rightarrow> if menu s = Waiting then Some s else None
        | ClickQuit \<Rightarrow> if menu s = Waiting then Some (s\<lparr>loops := [], exited := True\<rparr>) else None
        | LoopCheck i \<Rightarrow>
            if atPc s i AtCheck
            then (if running s then Some (s\<lparr>loops := (loops s)[i := InCycle]\<rparr>)
                  else Some (s\<lparr>loops := dropAt i (loops s)\<rparr>))
            else None
        | LoopBody i \<Rightarrow>
            if atPc s i InCycle then Some (s\<lparr>loops := (loops s)[i := AtSelect]\<rparr>) else None
        | LoopFatal i \<Rightarrow>
            if atPc s i InCycle then Some (s\<lparr>loops := [], exited := True\<rparr>) else None
        | LoopTimeout i \<Rightarrow>
            if atPc s i AtSelect then Some (s\<lparr>loops := (loops s)[i := AtCheck]\<rparr>) else None
        | LoopQuit i \<Rightarrow>
            if atPc s i AtSelect \<and> menu s = Sending
            then Some (s\<lparr>loops := dropAt i (loops s), menu := Waiting\<rparr>)
            else None))"

fun run :: "event list \<Rightarrow> sys \<Rightarrow> sys option" where
  "run [] s = Some s"
| "run (ev # evs) s = (case fire ev s of None \<Rightarrow> None | Some s' \<Rightarrow> run evs s')"

section \<open>Auxiliary notions for the proofs\<close>

text \<open>
  A histogram \<open>m\<close> is well formed for a list of colors when it has one pair for
  each color of the list, holding the number of its occurrences.
\<close>

definition wf_counts :: "RGB list \<Rightarrow> countMap \<Rightarrow> bool" where
  "wf_counts qs m \<longleftrightarrow>
     distinct (map fst m) \<and> fst ` set m = set qs
     \<and> (\<forall>k v. (k, v) \<in> set m \<longrightarrow> v = int (count_list qs k))"

text \<open>The sorted list of \<^verbatim>\<open>topColors\<close> before it is cut, for a given histogram.\<close>

definition ranked :: "(countMap \<Rightarrow> countMap) \<Rightarrow> countMap \<Rightarrow> kv list" where
  "ranked rangeOrder m = sort_key (\<lambda>e. - Count e) (map (\<lambda>(k, v). KV k v) (rangeOrder m))"

text \<open>The invariant of the transition system.\<close>

definition loop_inv :: "sys \<Rightarrow> bool" where
  "loop_inv s \<longleftrightarrow>
     length (loops s) \<le> 1
     \<and> (menu s = Sending \<longrightarrow> \<not> running s)
     \<and> (menu s = Waiting \<and> \<not> running s \<longrightarrow> loops s = [])"

section \<open>Properties of quantization\<close>

lemma quant16_unat: "unat ((x :: 8 word) div 16 * 16) = unat x div 16 * 16"
proof -
  have "unat x < 256" using unsigned_less [of x] by simp
  then have "unat x div 16 * 16 < 2 ^ LENGTH(8)" by simp
  then show ?thesis
    by (simp add: unat_word_ariths unat_div)
qed

lemma quant16_le: "(x :: 8 word) div 16 * 16 \<le> x"
  by (simp add: word_le_nat_alt quant16_unat)

lemma quant16_bound: "unat ((x :: 8 word) div 16 * 16) \<le> 240"
proof -
  have "unat x < 256" using unsigned_less [of x] by simp
  then have "unat x div 16 < 16" by (simp add: less_mult_imp_div_less)
  then have "unat x div 16 * 16 \<le> 240" by simp
  then show ?thesis by (simp only: quant16_unat)
qed

lemma quant16_dvd: "16 dvd unat ((x :: 8 word) div 16 * 16)"
  by (simp only: quant16_unat dvd_triv_right)

lemma sixteen_neq_0: "(16 :: 8 word) \<noteq> 0"
  by simp

lemma quantizeRGB_16:
  "quantizeRGB p 16 = Some (RGB (R p div 16 * 16) (G p div 16 * 16) (B p div 16 * 16))"
  unfolding quantizeRGB_def using sixteen_neq_0 by (simp only: if_False)

lemma quantizeRGB_quantStep:
  "quantizeRGB p quantStep =
     Some (RGB (R p div 16 * 16) (G p div 16 * 16) (B p div 16 * 16))"
  unfolding quantStep_def by (rule quantizeRGB_16)

text \<open>
  C8. For every pixel \<open>p\<close>, \<^verbatim>\<open>quantizeRGB(p, 16)\<close> returns a color (it does not
  panic) each of whose channels is the channel of \<open>p\<close> divided by 16, rounding down,
  and multiplied by 16, in \<^verbatim>\<open>uint8\<close> arithmetic and as numbers alike: the
  multiplication does not wrap. Each channel of the result is divisible by 16, is at
  most the channel of \<open>p\<close>, and is at most 240.
\<close>

theorem quantizeRGB_16_channels:
  "\<exists>q. quantizeRGB p 16 = Some q
     \<and> (R q = R p div 16 * 16 \<and> G q = G p div 16 * 16 \<and> B q = B p div 16 * 16)
     \<and> (unat (R q) = unat (R p) div 16 * 16
        \<and> unat (G q) = unat (G p) div 16 * 16
        \<and> unat (B q) = unat (B p) div 16 * 16)
     \<and> (16 dvd unat (R q) \<and> 16 dvd unat (G q) \<and> 16 dvd unat (B q))
     \<and> (R q \<le> R p \<and> G q \<le> G p \<and> B q \<le> B p)
     \<and> (unat (R q) \<le> 240 \<and> unat (G q) \<le> 240 \<and> unat (B q) \<le> 240)"
proof -
  define q where "q = RGB (R p div 16 * 16) (G p div 16 * 16) (B p div 16 * 16)"
  have sel: "R q = R p div 16 * 16" "G q = G p div 16 * 16" "B q = B p div 16 * 16"
    by (simp_all only: q_def RGB.sel)
  have 1: "quantizeRGB p 16 = Some q" unfolding q_def by (rule quantizeRGB_16)
  have 2: "unat (R q) = unat (R p) div 16 * 16 \<and> unat (G q) = unat (G p) div 16 * 16
        \<and> unat (B q) = unat (B p) div 16 * 16"
    by (simp only: sel quant16_unat)
  have 3: "16 dvd unat (R q) \<and> 16 dvd unat (G q) \<and> 16 dvd unat (B q)"
    by (simp only: sel quant16_dvd)
  have 4: "R q \<le> R p \<and> G q \<le> G p \<and> B q \<le> B p"
    by (simp only: sel quant16_le)
  have 5: "unat (R q) \<le> 240 \<and> unat (G q) \<le> 240 \<and> unat (B q) \<le> 240"
    by (simp only: sel quant16_bound)
  from 1 sel 2 3 4 5 show ?thesis by blast
qed

section \<open>The emission decision\<close>

lemma colorDistance_channels:
  "colorDistance a b =
     real_of_int ((uint (R a) - uint (R b))\<^sup>2 + (uint (G a) - uint (G b))\<^sup>2
                  + (uint (B a) - uint (B b))\<^sup>2)"
  by (simp add: colorDistance_def Let_def power2_eq_square)

lemma colorDistance_same: "colorDistance c c = 0"
  by (simp add: colorDistance_def)

lemma distance_16: "colorDistance (RGB 16 0 0) (RGB 0 0 0) = 256"
  by (simp add: colorDistance_def)

lemma emitStep_token:
  "HA_TOKEN (Env appConfig) \<noteq> [] \<Longrightarrow>
   emitStep appConfig prevColor mostColor =
     (if shouldCallHA 32 prevColor mostColor then (Some mostColor, Some mostColor)
      else (None, prevColor))"
  by (simp add: emitStep_def colorChangeThreshold_def)

text \<open>
  C2 at a failing input. The configured threshold is 1000, the previously emitted color
  is (0,0,0) and the dominant color is (16,0,0): the squared distance 256 is below the
  configured threshold, yet the cycle emits, since it compares with the constant 32.
\<close>

theorem configured_threshold_unused:
  "COLOR_CHANGE_THRESHOLD (Env strictConfig) = 1000
   \<and> colorDistance (RGB 16 0 0) (RGB 0 0 0) = 256
   \<and> \<not> shouldCallHA (COLOR_CHANGE_THRESHOLD (Env strictConfig)) (Some (RGB 0 0 0)) (RGB 16 0 0)
   \<and> emitStep strictConfig (Some (RGB 0 0 0)) (RGB 16 0 0)
       = (Some (RGB 16 0 0), Some (RGB 16 0 0))"
  by (simp add: distance_16 emitStep_def shouldCallHA_def colorChangeThreshold_def
      strictConfig_def)

lemma emitStep_ignores_threshold:
  "emitStep (appConfig\<lparr>Env := (Env appConfig)\<lparr>COLOR_CHANGE_THRESHOLD := t\<rparr>\<rparr>) prevColor mostColor
     = emitStep appConfig prevColor mostColor"
  by (simp add: emitStep_def)

section \<open>The size of the downscaled image\<close>

lemma quo_10: "0 \<le> a \<Longrightarrow> quo a 10 = a div 10"
  by (simp add: quo_def sgn_if)

lemma downscale_Bounds:
  "Bounds (downscale scale img) =
     Rect 0 0 (if quo (Dx (Bounds img)) 10 < 1 then 1 else quo (Dx (Bounds img)) 10)
              (if quo (Dy (Bounds img)) 10 < 1 then 1 else quo (Dy (Bounds img)) 10)"
  by (simp add: downscale_def Let_def)

lemma Dx_Rect_0: "0 \<le> w \<Longrightarrow> Dx (Rect 0 0 w h) = w"
  by (simp add: Dx_def Rect_def)

lemma Dy_Rect_0: "0 \<le> h \<Longrightarrow> Dy (Rect 0 0 w h) = h"
  by (simp add: Dy_def Rect_def)

text \<open>
  C7. For an image of width at least 1 and height at least 1, the bounds of the
  downscaled image start at the origin, its width is the larger of 1 and the tenth of
  the width, rounded down, and its height the larger of 1 and the tenth of the
  height, rounded down. Both are at least 1.
\<close>

theorem downscale_size:
  assumes "1 \<le> Dx (Bounds img)" and "1 \<le> Dy (Bounds img)"
  shows "Dx (Bounds (downscale scale img)) = max 1 (Dx (Bounds img) div 10)
     \<and> Dy (Bounds (downscale scale img)) = max 1 (Dy (Bounds img) div 10)
     \<and> MinX (Bounds (downscale scale img)) = 0 \<and> MinY (Bounds (downscale scale img)) = 0
     \<and> 1 \<le> Dx (Bounds (downscale scale img)) \<and> 1 \<le> Dy (Bounds (downscale scale img))"
proof -
  have qx: "quo (Dx (Bounds img)) 10 = Dx (Bounds img) div 10"
    using assms(1) by (simp add: quo_10)
  have qy: "quo (Dy (Bounds img)) 10 = Dy (Bounds img) div 10"
    using assms(2) by (simp add: quo_10)
  have b: "Bounds (downscale scale img) =
      Rect 0 0 (max 1 (Dx (Bounds img) div 10)) (max 1 (Dy (Bounds img) div 10))"
    by (simp add: downscale_Bounds qx qy max_def not_less)
  have x: "Dx (Bounds (downscale scale img)) = max 1 (Dx (Bounds img) div 10)"
    by (simp only: b) (simp add: Dx_Rect_0)
  have y: "Dy (Bounds (downscale scale img)) = max 1 (Dy (Bounds img) div 10)"
    by (simp only: b) (simp add: Dy_Rect_0)
  have o: "MinX (Bounds (downscale scale img)) = 0 \<and> MinY (Bounds (downscale scale img)) = 0"
    by (simp only: b) (simp add: Rect_def)
  from x y o show ?thesis by simp
qed

theorem downscale_size_witness:
  "Dx (Bounds (downscale (\<lambda>d src r x y. At src x y)
                 \<lparr>Bounds = Rect 0 0 100 100, At = (\<lambda>x y. (0, 0, 0, 0))\<rparr>)) = 10
   \<and> Dy (Bounds (downscale (\<lambda>d src r x y. At src x y)
                 \<lparr>Bounds = Rect 0 0 100 100, At = (\<lambda>x y. (0, 0, 0, 0))\<rparr>)) = 10
   \<and> Dx (Bounds (downscale (\<lambda>d src r x y. At src x y)
                 \<lparr>Bounds = Rect 0 0 5 5, At = (\<lambda>x y. (0, 0, 0, 0))\<rparr>)) = 1
   \<and> Dy (Bounds (downscale (\<lambda>d src r x y. At src x y)
                 \<lparr>Bounds = Rect 0 0 5 5, At = (\<lambda>x y. (0, 0, 0, 0))\<rparr>)) = 1"
proof -
  have a: "1 \<le> Dx (Bounds \<lparr>Bounds = Rect 0 0 100 100, At = (\<lambda>x y. (0, 0, 0, 0))\<rparr>)"
    "1 \<le> Dy (Bounds \<lparr>Bounds = Rect 0 0 100 100, At = (\<lambda>x y. (0, 0, 0, 0))\<rparr>)"
    by (simp_all add: Dx_def Dy_def Rect_def)
  have c: "1 \<le> Dx (Bounds \<lparr>Bounds = Rect 0 0 5 5, At = (\<lambda>x y. (0, 0, 0, 0))\<rparr>)"
    "1 \<le> Dy (Bounds \<lparr>Bounds = Rect 0 0 5 5, At = (\<lambda>x y. (0, 0, 0, 0))\<rparr>)"
    by (simp_all add: Dx_def Dy_def Rect_def)
  from downscale_size [OF a, of "\<lambda>d src r x y. At src x y"]
    downscale_size [OF c, of "\<lambda>d src r x y. At src x y"]
  show ?thesis by (simp add: Dx_def Dy_def Rect_def)
qed

section \<open>At most one update loop\<close>

lemma length_dropAt: "length (dropAt i xs) \<le> length xs"
  by (simp add: dropAt_def)

lemma dropAt_single: "length xs \<le> 1 \<Longrightarrow> i < length xs \<Longrightarrow> dropAt i xs = []"
  by (cases xs) (simp_all add: dropAt_def)

lemma loop_inv_initial: "loop_inv initial"
  by (simp add: loop_inv_def initial_def)

lemma loop_inv_onStart: "loop_inv s \<Longrightarrow> menu s = Waiting \<Longrightarrow> loop_inv (onStart s)"
  by (simp add: loop_inv_def onStart_def)

lemma loop_inv_onStop: "loop_inv s \<Longrightarrow> loop_inv (onStop s)"
  by (simp add: loop_inv_def onStop_def)

lemma loop_inv_exit: "loop_inv s \<Longrightarrow> loop_inv (s\<lparr>loops := [], exited := True\<rparr>)"
  by (simp add: loop_inv_def)

lemma loop_inv_update:
  "loop_inv s \<Longrightarrow> loop_inv (s\<lparr>loops := (loops s)[i := pc]\<rparr>)"
  by (simp add: loop_inv_def)

lemma loop_inv_check_false:
  "loop_inv s \<Longrightarrow> atPc s i AtCheck \<Longrightarrow> \<not> running s \<Longrightarrow>
   loop_inv (s\<lparr>loops := dropAt i (loops s)\<rparr>)"
  using length_dropAt [of i "loops s"]
  by (auto simp: loop_inv_def atPc_def)

lemma loop_inv_quit:
  "loop_inv s \<Longrightarrow> atPc s i AtSelect \<Longrightarrow> menu s = Sending \<Longrightarrow>
   loop_inv (s\<lparr>loops := dropAt i (loops s), menu := Waiting\<rparr>)"
  by (simp add: loop_inv_def atPc_def dropAt_single)

lemma loop_inv_fire:
  assumes "loop_inv s" and "fire ev s = Some s'"
  shows "loop_inv s'"
proof (cases ev)
  case ClickStart
  with assms show ?thesis by (auto simp: loop_inv_onStart split: if_splits)
next
  case ClickStop
  with assms show ?thesis by (auto simp: loop_inv_onStop split: if_splits)
next
  case ClickTurnOn
  with assms show ?thesis by (auto split: if_splits)
next
  case ClickTurnOff
  with assms show ?thesis by (auto split: if_splits)
next
  case ClickQuit
  with assms show ?thesis by (auto simp: loop_inv_exit split: if_splits)
next
  case (LoopCheck i)
  with assms show ?thesis
    by (auto simp: loop_inv_update loop_inv_check_false split: if_splits)
next
  case (LoopBody i)
  with assms show ?thesis by (auto simp: loop_inv_update split: if_splits)
next
  case (LoopFatal i)
  with assms show ?thesis by (auto simp: loop_inv_exit split: if_splits)
next
  case (LoopTimeout i)
  with assms show ?thesis by (auto simp: loop_inv_update split: if_splits)
next
  case (LoopQuit i)
  with assms show ?thesis by (auto simp: loop_inv_quit split: if_splits)
qed

lemma loop_inv_run: "loop_inv s \<Longrightarrow> run evs s = Some s' \<Longrightarrow> loop_inv s'"
proof (induction evs arbitrary: s)
  case Nil
  then show ?case by simp
next
  case (Cons ev evs)
  from Cons.prems(2) obtain s1 where f: "fire ev s = Some s1" and r: "run evs s1 = Some s'"
    by (auto split: option.splits)
  from Cons.prems(1) f have "loop_inv s1" by (rule loop_inv_fire)
  then show ?case using r by (rule Cons.IH)
qed

text \<open>
  C9. In every state reached from the initial one by any sequence of menu clicks and
  steps of loop goroutines, at most one \<^verbatim>\<open>colorUpdateLoop\<close> goroutine exists. When
  the flag \<^verbatim>\<open>running\<close> is set, the handler of a click on Start changes nothing; in
  particular it starts no loop.
\<close>

theorem single_loop:
  assumes "run evs initial = Some s"
  shows "length (loops s) \<le> 1
     \<and> (running s \<longrightarrow> onStart s = s)
     \<and> (running s \<and> \<not> exited s \<longrightarrow> fire ClickStart s = Some s)"
proof -
  from loop_inv_initial assms have i: "loop_inv s" by (rule loop_inv_run)
  then have 1: "length (loops s) \<le> 1" by (simp add: loop_inv_def)
  have 2: "running s \<longrightarrow> onStart s = s" by (simp add: onStart_def)
  have m: "running s \<Longrightarrow> menu s = Waiting"
    using i by (cases "menu s") (simp_all add: loop_inv_def)
  have 3: "running s \<and> \<not> exited s \<longrightarrow> fire ClickStart s = Some s"
    using m by (simp add: onStart_def)
  from 1 2 3 show ?thesis by blast
qed


theorem single_loop_witness:
  "run [ClickStart, LoopCheck 0, LoopBody 0, ClickStart] initial
     = Some \<lparr>running = True, menu = Waiting, loops = [AtSelect],
             startEnabled = False, stopEnabled = True, exited = False\<rparr>
   \<and> length (loops \<lparr>running = True, menu = Waiting, loops = [AtSelect],
             startEnabled = False, stopEnabled = True, exited = False\<rparr>) \<le> 1
   \<and> fire ClickStart \<lparr>running = True, menu = Waiting, loops = [AtSelect],
             startEnabled = False, stopEnabled = True, exited = False\<rparr>
       = Some \<lparr>running = True, menu = Waiting, loops = [AtSelect],
             startEnabled = False, stopEnabled = True, exited = False\<rparr>"
proof -
  have r: "run [ClickStart, LoopCheck 0, LoopBody 0, ClickStart] initial
     = Some \<lparr>running = True, menu = Waiting, loops = [AtSelect],
             startEnabled = False, stopEnabled = True, exited = False\<rparr>"
    by (simp add: initial_def onStart_def atPc_def)
  from single_loop [OF r] r show ?thesis by simp
qed

section \<open>Histograms\<close>

lemma keys_incr: "fst ` set (incr c m) = insert c (fst ` set m)"
proof (induction m)
  case Nil
  then show ?case by simp
next
  case (Cons x m)
  obtain k v where x: "x = (k, v)" by (cases x)
  show ?case
  proof (cases "k = c")
    case True
    with x show ?thesis by simp
  next
    case False
    with x Cons.IH show ?thesis by (simp add: insert_commute)
  qed
qed

lemma distinct_incr: "distinct (map fst m) \<Longrightarrow> distinct (map fst (incr c m))"
  by (induction m) (auto simp: keys_incr)

lemma map_of_incr:
  "map_of (incr c m) d =
     (if d = c then Some (case map_of m c of None \<Rightarrow> 1 | Some v \<Rightarrow> v + 1) else map_of m d)"
  by (induction m) auto

lemma wf_counts_Nil: "wf_counts [] []"
  by (simp add: wf_counts_def)

lemma wf_counts_incr:
  assumes "wf_counts qs m"
  shows "wf_counts (qs @ [c]) (incr c m)"
proof -
  from assms have d: "distinct (map fst m)" and k: "fst ` set m = set qs"
    and v: "\<And>k v. (k, v) \<in> set m \<Longrightarrow> v = int (count_list qs k)"
    by (auto simp: wf_counts_def)
  have d': "distinct (map fst (incr c m))" using d by (rule distinct_incr)
  have k': "fst ` set (incr c m) = set (qs @ [c])" using k by (simp add: keys_incr)
  have v': "w = int (count_list (qs @ [c]) j)" if "(j, w) \<in> set (incr c m)" for j w
  proof -
    from that d' have "map_of (incr c m) j = Some w" by simp
    then have w: "(if j = c then Some (case map_of m c of None \<Rightarrow> 1 | Some v \<Rightarrow> v + 1) else map_of m j) = Some w"
      by (simp add: map_of_incr)
    show ?thesis
    proof (cases "j = c")
      case True
      show ?thesis
      proof (cases "map_of m c")
        case None
        then have "c \<notin> fst ` set m" by (simp add: map_of_eq_None_iff)
        then have "c \<notin> set qs" using k by simp
        with w True None show ?thesis by simp
      next
        case (Some u)
        then have "(c, u) \<in> set m" by (rule map_of_SomeD)
        then have "u = int (count_list qs c)" by (rule v)
        with w True Some show ?thesis by simp
      qed
    next
      case False
      with w have "(j, w) \<in> set m" by (simp add: map_of_SomeD)
      then have "w = int (count_list qs j)" by (rule v)
      with False show ?thesis by simp
    qed
  qed
  from d' k' v' show ?thesis unfolding wf_counts_def by blast
qed

lemma wf_counts_fold:
  "wf_counts qs m \<Longrightarrow> wf_counts (qs @ cs) (fold incr cs m)"
proof (induction cs arbitrary: qs m)
  case Nil
  then show ?case by simp
next
  case (Cons c cs)
  from Cons.prems have "wf_counts (qs @ [c]) (incr c m)" by (rule wf_counts_incr)
  then have "wf_counts ((qs @ [c]) @ cs) (fold incr cs (incr c m))" by (rule Cons.IH)
  then show ?case by simp
qed

lemma countAll_fold:
  "countAll ps m = Some (fold incr (List.map_filter (\<lambda>p. quantizeRGB p quantStep) ps) m)"
  by (induction ps arbitrary: m) (simp_all add: quantizeRGB_quantStep List.map_filter_simps)

lemma countFiltered_fold:
  "countFiltered ps m =
     Some (fold incr (filter (\<lambda>c. \<not> isBlackOrWhite c)
                        (List.map_filter (\<lambda>p. quantizeRGB p quantStep) ps)) m)"
  by (induction ps arbitrary: m) (simp_all add: quantizeRGB_quantStep List.map_filter_simps)

lemma countAll_scan: "\<exists>m. countAll (scan img) [] = Some m \<and> wf_counts (buckets img) m"
  using wf_counts_fold [OF wf_counts_Nil, of "buckets img"]
  by (simp add: countAll_fold buckets_def)

lemma countFiltered_scan: "\<exists>m. countFiltered (scan img) [] = Some m \<and> wf_counts (kept img) m"
  using wf_counts_fold [OF wf_counts_Nil, of "kept img"]
  by (simp add: countFiltered_fold buckets_def kept_def)

lemma maxLoop_cases:
  "(maxLoop xs mc col = col \<and> (\<forall>k v. (k, v) \<in> set xs \<longrightarrow> v \<le> mc))
   \<or> (\<exists>w. (maxLoop xs mc col, w) \<in> set xs \<and> mc < w \<and> (\<forall>k v. (k, v) \<in> set xs \<longrightarrow> v \<le> w))"
proof (induction xs arbitrary: mc col)
  case Nil
  then show ?case by simp
next
  case (Cons x xs)
  obtain k c where x: "x = (k, c)" by (cases x)
  show ?case
  proof (cases "c > mc")
    case True
    then have step: "maxLoop (x # xs) mc col = maxLoop xs c k" using x by simp
    from Cons.IH [of c k] show ?thesis
    proof
      assume a: "maxLoop xs c k = k \<and> (\<forall>k v. (k, v) \<in> set xs \<longrightarrow> v \<le> c)"
      have "(maxLoop (x # xs) mc col, c) \<in> set (x # xs)" using a step x by simp
      moreover have "\<forall>k v. (k, v) \<in> set (x # xs) \<longrightarrow> v \<le> c" using a x by auto
      ultimately show ?thesis using True by blast
    next
      assume "\<exists>w. (maxLoop xs c k, w) \<in> set xs \<and> c < w \<and> (\<forall>k v. (k, v) \<in> set xs \<longrightarrow> v \<le> w)"
      then obtain w where w: "(maxLoop xs c k, w) \<in> set xs" "c < w"
        "\<forall>k v. (k, v) \<in> set xs \<longrightarrow> v \<le> w" by blast
      have "(maxLoop (x # xs) mc col, w) \<in> set (x # xs)" using w step by simp
      moreover have "mc < w" using w True by simp
      moreover have "\<forall>k v. (k, v) \<in> set (x # xs) \<longrightarrow> v \<le> w" using w x by auto
      ultimately show ?thesis by blast
    qed
  next
    case False
    then have step: "maxLoop (x # xs) mc col = maxLoop xs mc col" using x by simp
    from Cons.IH [of mc col] show ?thesis
    proof
      assume a: "maxLoop xs mc col = col \<and> (\<forall>k v. (k, v) \<in> set xs \<longrightarrow> v \<le> mc)"
      have "\<forall>k v. (k, v) \<in> set (x # xs) \<longrightarrow> v \<le> mc" using a x False by auto
      then show ?thesis using a step by simp
    next
      assume "\<exists>w. (maxLoop xs mc col, w) \<in> set xs \<and> mc < w \<and> (\<forall>k v. (k, v) \<in> set xs \<longrightarrow> v \<le> w)"
      then obtain w where w: "(maxLoop xs mc col, w) \<in> set xs" "mc < w"
        "\<forall>k v. (k, v) \<in> set xs \<longrightarrow> v \<le> w" by blast
      have "(maxLoop (x # xs) mc col, w) \<in> set (x # xs)" using w step by simp
      moreover have "\<forall>k v. (k, v) \<in> set (x # xs) \<longrightarrow> v \<le> w" using w x False by auto
      ultimately show ?thesis using w(2) by blast
    qed
  qed
qed

lemma sum_list_const: "sum_list (map (\<lambda>y. n) ys) = length ys * (n :: nat)"
  by (induction ys) simp_all

lemma length_scan:
  "length (scan img) =
     nat (MaxY (Bounds img) - MinY (Bounds img)) * nat (MaxX (Bounds img) - MinX (Bounds img))"
  by (simp add: scan_def length_concat comp_def sum_list_const)

lemma scan_nonempty:
  "MinX (Bounds img) < MaxX (Bounds img) \<Longrightarrow> MinY (Bounds img) < MaxY (Bounds img) \<Longrightarrow>
   scan img \<noteq> []"
proof -
  assume "MinX (Bounds img) < MaxX (Bounds img)" "MinY (Bounds img) < MaxY (Bounds img)"
  then have "0 < length (scan img)" by (simp add: length_scan)
  then show ?thesis by simp
qed

lemma map_filter_quantize:
  "List.map_filter (\<lambda>p. quantizeRGB p quantStep) ps =
     map (\<lambda>p. RGB (R p div 16 * 16) (G p div 16 * 16) (B p div 16 * 16)) ps"
  by (induction ps) (simp_all add: List.map_filter_simps quantizeRGB_quantStep)

lemma buckets_map:
  "buckets img = map (\<lambda>p. RGB (R p div 16 * 16) (G p div 16 * 16) (B p div 16 * 16)) (scan img)"
  by (simp add: buckets_def map_filter_quantize)

lemma wf_counts_empty_iff: "wf_counts qs m \<Longrightarrow> (m = [] \<longleftrightarrow> qs = [])"
  by (auto simp: wf_counts_def)

section \<open>The dominant color\<close>

lemma key_pair:
  assumes keys: "fst ` set m = set qs" and k: "k \<in> set qs"
  shows "\<exists>v. (k, v) \<in> set m"
proof -
  from k have "k \<in> fst ` set m" unfolding keys .
  then obtain p where p: "k = fst p" "p \<in> set m" by (rule imageE)
  then have "(k, snd p) \<in> set m" by simp
  then show ?thesis ..
qed

lemma wf_counts_keys: "wf_counts qs m \<Longrightarrow> fst ` set m = set qs"
  by (simp add: wf_counts_def)

lemma wf_counts_val: "wf_counts qs m \<Longrightarrow> (k, v) \<in> set m \<Longrightarrow> v = int (count_list qs k)"
  unfolding wf_counts_def by blast

lemma wf_counts_maxLoop:
  assumes wf: "wf_counts qs m" and ne: "qs \<noteq> []" and xs: "set xs = set m"
  shows "maxLoop xs 0 z \<in> set qs \<and> (\<forall>d. count_list qs d \<le> count_list qs (maxLoop xs 0 z))"
proof -
  note keys = wf_counts_keys [OF wf]
  note val = wf_counts_val [OF wf]
  from ne have "hd qs \<in> set qs" by (rule hd_in_set)
  then obtain k where k: "k \<in> set qs" ..
  from key_pair [OF keys k] obtain v where kv: "(k, v) \<in> set m" ..
  then have v: "v = int (count_list qs k)" by (rule val)
  have "count_list qs k \<noteq> 0" using k by (simp add: count_list_0_iff)
  then have vpos: "0 < v" using v by simp
  from maxLoop_cases [of xs 0 z] show ?thesis
  proof
    assume a: "maxLoop xs 0 z = z \<and> (\<forall>k v. (k, v) \<in> set xs \<longrightarrow> v \<le> 0)"
    from kv have "(k, v) \<in> set xs" unfolding xs .
    with a have "v \<le> 0" by blast
    with vpos show ?thesis by simp
  next
    assume "\<exists>w. (maxLoop xs 0 z, w) \<in> set xs \<and> 0 < w \<and> (\<forall>k v. (k, v) \<in> set xs \<longrightarrow> v \<le> w)"
    then obtain w where w: "(maxLoop xs 0 z, w) \<in> set m"
      and top: "\<forall>k v. (k, v) \<in> set m \<longrightarrow> v \<le> w"
      unfolding xs by blast
    from w have weq: "w = int (count_list qs (maxLoop xs 0 z))" by (rule val)
    from w have "fst (maxLoop xs 0 z, w) \<in> fst ` set m" by (rule imageI)
    then have mem: "maxLoop xs 0 z \<in> set qs" unfolding keys by simp
    have le: "count_list qs d \<le> count_list qs (maxLoop xs 0 z)" for d
    proof (cases "d \<in> set qs")
      case True
      from key_pair [OF keys True] obtain u where du: "(d, u) \<in> set m" ..
      then have "u = int (count_list qs d)" by (rule val)
      moreover from du top have "u \<le> w" by blast
      ultimately have "int (count_list qs d) \<le> int (count_list qs (maxLoop xs 0 z))"
        using weq by simp
      then show ?thesis by simp
    next
      case False
      then show ?thesis by simp
    qed
    from mem le show ?thesis by simp
  qed
qed

lemma mostFrequentColor_kept:
  assumes perm: "\<forall>m. mset (rangeOrder m) = mset m" and ne: "kept img \<noteq> []"
  shows "\<exists>c. mostFrequentColor rangeOrder img = Some c \<and> c \<in> set (kept img)
     \<and> (\<forall>d. count_list (kept img) d \<le> count_list (kept img) c)"
proof -
  from countFiltered_scan [of img] obtain m
    where m: "countFiltered (scan img) [] = Some m" and wf: "wf_counts (kept img) m" by blast
  from wf ne have "m \<noteq> []" by (simp add: wf_counts_empty_iff)
  then have r: "mostFrequentColor rangeOrder img = Some (maxLoop (rangeOrder m) 0 (RGB 0 0 0))"
    by (simp add: mostFrequentColor_def m)
  from perm have "mset (rangeOrder m) = mset m" by blast
  then have "set (rangeOrder m) = set m" by (rule mset_eq_setD)
  with wf ne have "maxLoop (rangeOrder m) 0 (RGB 0 0 0) \<in> set (kept img)
     \<and> (\<forall>d. count_list (kept img) d \<le> count_list (kept img) (maxLoop (rangeOrder m) 0 (RGB 0 0 0)))"
    by (rule wf_counts_maxLoop)
  with r show ?thesis by simp
qed

lemma mostFrequentColor_fallback:
  assumes perm: "\<forall>m. mset (rangeOrder m) = mset m" and e: "kept img = []"
    and ne: "buckets img \<noteq> []"
  shows "\<exists>c. mostFrequentColor rangeOrder img = Some c \<and> c \<in> set (buckets img)
     \<and> (\<forall>d. count_list (buckets img) d \<le> count_list (buckets img) c)"
proof -
  from countFiltered_scan [of img] obtain m0
    where m0: "countFiltered (scan img) [] = Some m0" and wf0: "wf_counts (kept img) m0" by blast
  from wf0 e have m0e: "m0 = []" by (simp add: wf_counts_empty_iff)
  from countAll_scan [of img] obtain m
    where m: "countAll (scan img) [] = Some m" and wf: "wf_counts (buckets img) m" by blast
  have r: "mostFrequentColor rangeOrder img = Some (maxLoop (rangeOrder m) 0 (RGB 0 0 0))"
    by (simp add: mostFrequentColor_def m0 m0e m)
  from perm have "mset (rangeOrder m) = mset m" by blast
  then have "set (rangeOrder m) = set m" by (rule mset_eq_setD)
  with wf ne have "maxLoop (rangeOrder m) 0 (RGB 0 0 0) \<in> set (buckets img)
     \<and> (\<forall>d. count_list (buckets img) d \<le> count_list (buckets img) (maxLoop (rangeOrder m) 0 (RGB 0 0 0)))"
    by (rule wf_counts_maxLoop)
  with r show ?thesis by simp
qed

text \<open>
  C4. For an image with at least one pixel and any order in which the map is ranged
  over, \<^verbatim>\<open>mostFrequentColor\<close> returns a color. When some quantized pixel is neither
  near-black nor near-white, the color is one of those, and no quantized color has
  more pixels among those. Otherwise the color is a quantized color of the image, and
  no quantized color has more pixels in the image.
\<close>

theorem mostFrequentColor_dominant:
  assumes perm: "\<forall>m. mset (rangeOrder m) = mset m"
    and x: "MinX (Bounds img) < MaxX (Bounds img)"
    and y: "MinY (Bounds img) < MaxY (Bounds img)"
  shows "\<exists>c. mostFrequentColor rangeOrder img = Some c
     \<and> (kept img \<noteq> [] \<longrightarrow>
          c \<in> set (kept img) \<and> \<not> isBlackOrWhite c
          \<and> (\<forall>d. count_list (kept img) d \<le> count_list (kept img) c))
     \<and> (kept img = [] \<longrightarrow>
          c \<in> set (buckets img)
          \<and> (\<forall>d. count_list (buckets img) d \<le> count_list (buckets img) c))"
proof (cases "kept img = []")
  case True
  from x y have "scan img \<noteq> []" by (rule scan_nonempty)
  then have "buckets img \<noteq> []" by (simp add: buckets_map)
  with perm True have "\<exists>c. mostFrequentColor rangeOrder img = Some c \<and> c \<in> set (buckets img)
     \<and> (\<forall>d. count_list (buckets img) d \<le> count_list (buckets img) c)"
    by (rule mostFrequentColor_fallback)
  with True show ?thesis by blast
next
  case False
  with perm have "\<exists>c. mostFrequentColor rangeOrder img = Some c \<and> c \<in> set (kept img)
     \<and> (\<forall>d. count_list (kept img) d \<le> count_list (kept img) c)"
    by (rule mostFrequentColor_kept)
  then obtain c where c: "mostFrequentColor rangeOrder img = Some c" "c \<in> set (kept img)"
    "\<forall>d. count_list (kept img) d \<le> count_list (kept img) c" by blast
  from c(2) have "\<not> isBlackOrWhite c" by (simp add: kept_def)
  with c False show ?thesis by blast
qed

lemma scan_testImage:
  "scan testImage = [RGB 0 0 0, RGB 255 42 0, RGB 255 42 0, RGB 255 255 255]"
  by (simp add: scan_def testImage_def Rect_def upto.simps pixelAt_def)

lemma buckets_testImage:
  "buckets testImage = [RGB 0 0 0, RGB 240 32 0, RGB 240 32 0, RGB 240 240 240]"
  by (simp add: buckets_def scan_testImage List.map_filter_simps quantizeRGB_def quantStep_def)

lemma kept_testImage: "kept testImage = [RGB 240 32 0, RGB 240 32 0]"
  by (simp add: kept_def buckets_testImage isBlackOrWhite_def)

lemma scan_bwImage: "scan bwImage = [RGB 31 1 0, RGB 255 240 250, RGB 255 240 250]"
  by (simp add: scan_def bwImage_def Rect_def upto.simps pixelAt_def)

lemma buckets_bwImage: "buckets bwImage = [RGB 16 0 0, RGB 240 240 240, RGB 240 240 240]"
  by (simp add: buckets_def scan_bwImage List.map_filter_simps quantizeRGB_def quantStep_def)

lemma kept_bwImage: "kept bwImage = []"
  by (simp add: kept_def buckets_bwImage isBlackOrWhite_def)

theorem mostFrequentColor_dominant_witness:
  "(\<forall>m :: countMap. mset (rev m) = mset m)
   \<and> kept testImage = [RGB 240 32 0, RGB 240 32 0]
   \<and> mostFrequentColor rev testImage = Some (RGB 240 32 0)
   \<and> kept bwImage = []
   \<and> mostFrequentColor rev bwImage = Some (RGB 240 240 240)"
proof -
  have perm: "\<forall>m :: countMap. mset (rev m) = mset m" by simp
  have t: "MinX (Bounds testImage) < MaxX (Bounds testImage)"
    "MinY (Bounds testImage) < MaxY (Bounds testImage)"
    by (simp_all add: testImage_def Rect_def)
  have b: "MinX (Bounds bwImage) < MaxX (Bounds bwImage)"
    "MinY (Bounds bwImage) < MaxY (Bounds bwImage)"
    by (simp_all add: bwImage_def Rect_def)
  from mostFrequentColor_dominant [OF perm t] obtain c
    where c: "mostFrequentColor rev testImage = Some c"
      and ck: "kept testImage \<noteq> [] \<longrightarrow> c \<in> set (kept testImage)"
    by blast
  from ck have "c = RGB 240 32 0" by (simp add: kept_testImage)
  with c have 1: "mostFrequentColor rev testImage = Some (RGB 240 32 0)" by simp
  from mostFrequentColor_dominant [OF perm b] obtain d
    where d: "mostFrequentColor rev bwImage = Some d"
      and dk: "kept bwImage = [] \<longrightarrow> d \<in> set (buckets bwImage)
          \<and> (\<forall>e. count_list (buckets bwImage) e \<le> count_list (buckets bwImage) d)"
    by blast
  from dk kept_bwImage have dm: "d \<in> set (buckets bwImage)"
    and dall: "\<forall>e. count_list (buckets bwImage) e \<le> count_list (buckets bwImage) d"
    by simp_all
  from dm have mem: "d = RGB 16 0 0 \<or> d = RGB 240 240 240"
    by (auto simp: buckets_bwImage)
  from dall have top:
    "count_list (buckets bwImage) (RGB 240 240 240) \<le> count_list (buckets bwImage) d"
    by (rule spec)
  from mem have "d = RGB 240 240 240"
  proof
    assume "d = RGB 16 0 0"
    with top show ?thesis by (simp add: buckets_bwImage)
  next
    assume "d = RGB 240 240 240"
    then show ?thesis .
  qed
  with d have 2: "mostFrequentColor rev bwImage = Some (RGB 240 240 240)" by simp
  from perm 1 2 kept_testImage kept_bwImage show ?thesis by blast
qed

section \<open>The emission of a cycle\<close>

lemma downscale_nonempty:
  "MinX (Bounds (downscale scale img)) < MaxX (Bounds (downscale scale img))
   \<and> MinY (Bounds (downscale scale img)) < MaxY (Bounds (downscale scale img))"
  by (simp add: downscale_Bounds Rect_def)

lemma mostFrequentColor_Some:
  assumes perm: "\<forall>m. mset (rangeOrder m) = mset m"
    and x: "MinX (Bounds img) < MaxX (Bounds img)"
    and y: "MinY (Bounds img) < MaxY (Bounds img)"
  shows "\<exists>c. mostFrequentColor rangeOrder img = Some c"
proof (cases "kept img = []")
  case True
  from x y have "scan img \<noteq> []" by (rule scan_nonempty)
  then have "buckets img \<noteq> []" by (simp add: buckets_map)
  with perm True have "\<exists>c. mostFrequentColor rangeOrder img = Some c \<and> c \<in> set (buckets img)
     \<and> (\<forall>d. count_list (buckets img) d \<le> count_list (buckets img) c)"
    by (rule mostFrequentColor_fallback)
  then show ?thesis by blast
next
  case False
  with perm have "\<exists>c. mostFrequentColor rangeOrder img = Some c \<and> c \<in> set (kept img)
     \<and> (\<forall>d. count_list (kept img) d \<le> count_list (kept img) c)"
    by (rule mostFrequentColor_kept)
  then show ?thesis by blast
qed

lemma emitStep_cases:
  "emitStep appConfig prev c =
     (if HA_TOKEN (Env appConfig) \<noteq> []
         \<and> (prev = None
            \<or> (\<exists>p. prev = Some p
                 \<and> 32 \<le> real_of_int ((uint (R c) - uint (R p))\<^sup>2 + (uint (G c) - uint (G p))\<^sup>2
                                      + (uint (B c) - uint (B p))\<^sup>2)))
      then (Some c, Some c) else (None, prev))"
proof (cases prev)
  case None
  then show ?thesis by (simp add: emitStep_def shouldCallHA_def)
next
  case (Some p)
  then show ?thesis
    by (simp add: emitStep_def shouldCallHA_def colorChangeThreshold_def
        colorDistance_channels)
qed

text \<open>
  C5. For every frame and every order in which the map is ranged over, a cycle has a
  dominant color. For every previously emitted color, the decision of the cycle is
  positive exactly when there is no previously emitted color or the squared Euclidean
  distance between the dominant color and the previously emitted one is at least 32,
  the threshold of the loop. The cycle sends the dominant color and records it exactly
  when a token is configured and the decision is positive; otherwise it sends nothing
  and keeps the previously emitted color. So with a token the first cycle after a
  start sends its color, and a cycle whose dominant color is the previously emitted
  one sends nothing.
\<close>

theorem cycle_emits_iff:
  assumes perm: "\<forall>m. mset (rangeOrder m) = mset m"
  shows "\<exists>cur. mostFrequentColor rangeOrder (downscale scale img) = Some cur
     \<and> (\<forall>prev. shouldCallHA colorChangeThreshold prev cur =
           (prev = None
            \<or> (\<exists>p. prev = Some p
                 \<and> 32 \<le> real_of_int ((uint (R cur) - uint (R p))\<^sup>2
                                      + (uint (G cur) - uint (G p))\<^sup>2
                                      + (uint (B cur) - uint (B p))\<^sup>2))))
     \<and> (\<forall>prev. cycle rangeOrder scale appConfig prev img =
           Some (if HA_TOKEN (Env appConfig) \<noteq> []
                    \<and> (prev = None
                       \<or> (\<exists>p. prev = Some p
                            \<and> 32 \<le> real_of_int ((uint (R cur) - uint (R p))\<^sup>2
                                                 + (uint (G cur) - uint (G p))\<^sup>2
                                                 + (uint (B cur) - uint (B p))\<^sup>2)))
                 then (Some cur, Some cur) else (None, prev)))
     \<and> (HA_TOKEN (Env appConfig) \<noteq> [] \<longrightarrow>
          cycle rangeOrder scale appConfig None img = Some (Some cur, Some cur))
     \<and> cycle rangeOrder scale appConfig (Some cur) img = Some (None, Some cur)"
proof -
  from downscale_nonempty [of scale img]
  have x: "MinX (Bounds (downscale scale img)) < MaxX (Bounds (downscale scale img))"
    and y: "MinY (Bounds (downscale scale img)) < MaxY (Bounds (downscale scale img))"
    by simp_all
  from mostFrequentColor_Some [OF perm x y] obtain cur
    where cur: "mostFrequentColor rangeOrder (downscale scale img) = Some cur" ..
  have c: "cycle rangeOrder scale appConfig prev img = Some (emitStep appConfig prev cur)" for prev
    by (simp add: cycle_def Let_def cur)
  have 1: "\<forall>prev. cycle rangeOrder scale appConfig prev img =
           Some (if HA_TOKEN (Env appConfig) \<noteq> []
                    \<and> (prev = None
                       \<or> (\<exists>p. prev = Some p
                            \<and> 32 \<le> real_of_int ((uint (R cur) - uint (R p))\<^sup>2
                                                 + (uint (G cur) - uint (G p))\<^sup>2
                                                 + (uint (B cur) - uint (B p))\<^sup>2)))
                 then (Some cur, Some cur) else (None, prev))"
    by (simp only: c emitStep_cases [symmetric]) simp
  have 0: "\<forall>prev. shouldCallHA colorChangeThreshold prev cur =
           (prev = None
            \<or> (\<exists>p. prev = Some p
                 \<and> 32 \<le> real_of_int ((uint (R cur) - uint (R p))\<^sup>2
                                      + (uint (G cur) - uint (G p))\<^sup>2
                                      + (uint (B cur) - uint (B p))\<^sup>2)))"
  proof
    fix prev
    show "shouldCallHA colorChangeThreshold prev cur =
           (prev = None
            \<or> (\<exists>p. prev = Some p
                 \<and> 32 \<le> real_of_int ((uint (R cur) - uint (R p))\<^sup>2
                                      + (uint (G cur) - uint (G p))\<^sup>2
                                      + (uint (B cur) - uint (B p))\<^sup>2)))"
      by (cases prev)
        (simp_all add: shouldCallHA_def colorChangeThreshold_def colorDistance_channels)
  qed
  have 2: "HA_TOKEN (Env appConfig) \<noteq> [] \<longrightarrow>
          cycle rangeOrder scale appConfig None img = Some (Some cur, Some cur)"
    by (simp add: c emitStep_def shouldCallHA_def)
  have 3: "cycle rangeOrder scale appConfig (Some cur) img = Some (None, Some cur)"
    by (simp add: c emitStep_def shouldCallHA_def colorDistance_same colorChangeThreshold_def)
  from cur 0 1 2 3 show ?thesis by blast
qed

lemma small_testImage:
  "scan (downscale sampleScale testImage) = [RGB 0 0 0]"
  by (simp add: scan_def downscale_def Let_def quo_def Dx_def Dy_def Rect_def testImage_def
      sampleScale_def pixelAt_def upto.simps)

lemma dominant_small_testImage:
  "mostFrequentColor rev (downscale sampleScale testImage) = Some (RGB 0 0 0)"
  by (simp add: mostFrequentColor_def small_testImage quantizeRGB_def quantStep_def
      isBlackOrWhite_def)

theorem cycle_emits_iff_witness:
  "(\<forall>m :: countMap. mset (rev m) = mset m)
   \<and> HA_TOKEN (Env sampleConfig) \<noteq> []
   \<and> cycle rev sampleScale sampleConfig None testImage
       = Some (Some (RGB 0 0 0), Some (RGB 0 0 0))
   \<and> cycle rev sampleScale sampleConfig (Some (RGB 0 0 0)) testImage
       = Some (None, Some (RGB 0 0 0))
   \<and> cycle rev sampleScale sampleConfig (Some (RGB 0 0 16)) testImage
       = Some (Some (RGB 0 0 0), Some (RGB 0 0 0))
   \<and> cycle rev sampleScale sampleConfig (Some (RGB 0 0 5)) testImage
       = Some (None, Some (RGB 0 0 5))"
proof -
  have perm: "\<forall>m :: countMap. mset (rev m) = mset m" by simp
  have k: "HA_TOKEN (Env sampleConfig) \<noteq> []" by (simp add: sampleConfig_def)
  from cycle_emits_iff [OF perm, of sampleScale testImage sampleConfig] obtain cur
    where cur: "mostFrequentColor rev (downscale sampleScale testImage) = Some cur"
      and all: "\<forall>prev. cycle rev sampleScale sampleConfig prev testImage =
           Some (if HA_TOKEN (Env sampleConfig) \<noteq> []
                    \<and> (prev = None
                       \<or> (\<exists>p. prev = Some p
                            \<and> 32 \<le> real_of_int ((uint (R cur) - uint (R p))\<^sup>2
                                                 + (uint (G cur) - uint (G p))\<^sup>2
                                                 + (uint (B cur) - uint (B p))\<^sup>2)))
                 then (Some cur, Some cur) else (None, prev))"
    by blast
  from cur have c0: "cur = RGB 0 0 0" by (simp add: dominant_small_testImage)
  from all have 1: "cycle rev sampleScale sampleConfig None testImage
       = Some (Some (RGB 0 0 0), Some (RGB 0 0 0))"
    by (simp add: c0 k)
  from all have 2: "cycle rev sampleScale sampleConfig (Some (RGB 0 0 0)) testImage
       = Some (None, Some (RGB 0 0 0))"
    by (simp add: c0 k)
  from all have 3: "cycle rev sampleScale sampleConfig (Some (RGB 0 0 16)) testImage
       = Some (Some (RGB 0 0 0), Some (RGB 0 0 0))"
    by (simp add: c0 k)
  from all have 4: "cycle rev sampleScale sampleConfig (Some (RGB 0 0 5)) testImage
       = Some (None, Some (RGB 0 0 5))"
    by (simp add: c0 k)
  from perm k 1 2 3 4 show ?thesis by blast
qed

lemma small_uniformFrame:
  "scan (downscale sampleScale (uniformFrame c)) =
     [pixelAt (uniformFrame c) 0 0, pixelAt (uniformFrame c) 0 0]"
  by (simp add: scan_def downscale_def Let_def quo_def Dx_def Dy_def Rect_def uniformFrame_def
      sampleScale_def pixelAt_def upto.simps)

lemma pixel_uniformFrame:
  "pixelAt (uniformFrame (r, g, b, a)) 0 0 =
     RGB (ucast (drop_bit 8 r)) (ucast (drop_bit 8 g)) (ucast (drop_bit 8 b))"
  by (simp add: pixelAt_def uniformFrame_def)



lemma dominant_10:
  "mostFrequentColor rev (downscale sampleScale (uniformFrame (0x0A0A, 0x0A0A, 0x0A0A, 0xFFFF)))
     = Some (RGB 0 0 0)"
  by (simp add: mostFrequentColor_def small_uniformFrame pixel_uniformFrame quantizeRGB_def
      quantStep_def isBlackOrWhite_def)

lemma dominant_50:
  "mostFrequentColor rev (downscale sampleScale (uniformFrame (0x3232, 0, 0, 0xFFFF)))
     = Some (RGB 48 0 0)"
  by (simp add: mostFrequentColor_def small_uniformFrame pixel_uniformFrame quantizeRGB_def
      quantStep_def isBlackOrWhite_def)


text \<open>
  The screens of the scenario itself. A frame of color (10,10,10) has the dominant color
  (0,0,0), and a frame of color (50,0,0) the dominant color (48,0,0), since the
  dominant color is a quantized color.
\<close>

lemma scenario_screens:
  "cycle rev sampleScale sampleConfig (Some (RGB 0 0 0))
         (uniformFrame (0x0A0A, 0x0A0A, 0x0A0A, 0xFFFF))
       = Some (None, Some (RGB 0 0 0))
   \<and> cycle rev sampleScale sampleConfig (Some (RGB 0 0 0))
         (uniformFrame (0x3232, 0, 0, 0xFFFF))
       = Some (Some (RGB 48 0 0), Some (RGB 48 0 0))"
  by (simp add: cycle_def Let_def dominant_10 dominant_50 emitStep_def
      shouldCallHA_def colorDistance_def colorChangeThreshold_def sampleConfig_def)

section \<open>The ranked colors\<close>

lemma sum_list_map_nonneg:
  fixes f :: "'a \<Rightarrow> int"
  shows "\<forall>x \<in> set xs. 0 \<le> f x \<Longrightarrow> 0 \<le> sum_list (map f xs)"
  by (induction xs) simp_all

lemma sum_list_take_le:
  fixes f :: "'a \<Rightarrow> int"
  assumes "\<forall>x \<in> set xs. 0 \<le> f x"
  shows "sum_list (map f (take k xs)) \<le> sum_list (map f xs)"
proof -
  have "\<forall>x \<in> set (drop k xs). 0 \<le> f x"
    using assms by (meson in_set_dropD)
  then have "0 \<le> sum_list (map f (drop k xs))"
    by (rule sum_list_map_nonneg)
  moreover have "sum_list (map f xs) = sum_list (map f (take k xs)) + sum_list (map f (drop k xs))"
    by (metis append_take_drop_id map_append sum_list_append)
  ultimately show ?thesis by simp
qed

lemma count_sum_distinct:
  assumes "distinct cs" and "set cs = set qs"
  shows "(\<Sum>c\<leftarrow>cs. count_list qs c) = length qs"
proof -
  have "(\<Sum>c\<leftarrow>cs. count_list qs c) = sum (count_list qs) (set cs)"
    using assms(1) by (rule sum_list_distinct_conv_sum_set)
  also have "\<dots> = length qs"
    using assms(2) by (simp add: sum_count_set)
  finally show ?thesis .
qed

lemma length_scan_area:
  assumes "scan img \<noteq> []"
  shows "0 < Dx (Bounds img) * Dy (Bounds img)"
    and "int (length (scan img)) = Dx (Bounds img) * Dy (Bounds img)"
proof -
  from assms have "0 < length (scan img)" by simp
  then have pos: "0 < nat (MaxY (Bounds img) - MinY (Bounds img))
      * nat (MaxX (Bounds img) - MinX (Bounds img))"
    by (simp only: length_scan)
  then have y: "0 < MaxY (Bounds img) - MinY (Bounds img)"
    and x: "0 < MaxX (Bounds img) - MinX (Bounds img)" by simp_all
  then show "0 < Dx (Bounds img) * Dy (Bounds img)" by (simp add: Dx_def Dy_def)
  have "int (length (scan img)) = int (nat (MaxY (Bounds img) - MinY (Bounds img)))
      * int (nat (MaxX (Bounds img) - MinX (Bounds img)))"
    by (simp only: length_scan of_nat_mult)
  also have "\<dots> = (MaxY (Bounds img) - MinY (Bounds img)) * (MaxX (Bounds img) - MinX (Bounds img))"
    using x y by simp
  finally show "int (length (scan img)) = Dx (Bounds img) * Dy (Bounds img)"
    by (simp add: Dx_def Dy_def mult.commute)
qed

lemma topColors_ranked_eq:
  assumes m: "countAll (scan img) [] = Some m" and n: "0 \<le> n"
  shows "topColors rangeOrder img n = Some (take (nat n) (ranked rangeOrder m))"
proof (cases "int (length (ranked rangeOrder m)) > n")
  case True
  with n show ?thesis by (simp add: topColors_def m ranked_def Let_def)
next
  case False
  then have "length (ranked rangeOrder m) \<le> nat n" by simp
  then have "take (nat n) (ranked rangeOrder m) = ranked rangeOrder m" by (rule take_all)
  with False show ?thesis by (simp add: topColors_def m ranked_def Let_def)
qed

lemma Color_KV_pairs: "map Color (map (\<lambda>(k, v). KV k v) xs) = map fst xs"
  by (induction xs) auto

lemma mset_ranked:
  "mset (ranked rangeOrder m) = mset (map (\<lambda>(k, v). KV k v) (rangeOrder m))"
  unfolding ranked_def by (rule mset_sort)

lemma ranked_props:
  assumes perm: "mset (rangeOrder m) = mset m" and wf: "wf_counts qs m"
  shows "distinct (map Color (ranked rangeOrder m))"
    and "Color ` set (ranked rangeOrder m) = set qs"
    and "\<forall>e \<in> set (ranked rangeOrder m). Count e = int (count_list qs (Color e))"
    and "sorted_wrt (\<lambda>a b. Count a \<ge> Count b) (ranked rangeOrder m)"
proof -
  have "mset (map Color (ranked rangeOrder m))
      = mset (map Color (map (\<lambda>(k, v). KV k v) (rangeOrder m)))"
    using mset_ranked [of rangeOrder m] by (metis mset_map)
  also have "\<dots> = mset (map fst (rangeOrder m))" by (simp only: Color_KV_pairs)
  also have "\<dots> = mset (map fst m)" using perm by (metis mset_map)
  finally have cm: "mset (map Color (ranked rangeOrder m)) = mset (map fst m)" .
  from wf have d: "distinct (map fst m)" by (simp add: wf_counts_def)
  from cm d show "distinct (map Color (ranked rangeOrder m))"
    by (simp only: mset_eq_imp_distinct_iff [OF cm])
  from cm have "set (map Color (ranked rangeOrder m)) = set (map fst m)"
    by (rule mset_eq_setD)
  then show "Color ` set (ranked rangeOrder m) = set qs"
    using wf_counts_keys [OF wf] by simp
  from perm have sm: "set (rangeOrder m) = set m" by (rule mset_eq_setD)
  have sr: "set (ranked rangeOrder m) = (\<lambda>(k, v). KV k v) ` set m"
    by (simp add: ranked_def sm)
  show "\<forall>e \<in> set (ranked rangeOrder m). Count e = int (count_list qs (Color e))"
  proof
    fix e assume "e \<in> set (ranked rangeOrder m)"
    then obtain p where p: "p \<in> set m" "e = (\<lambda>(k, v). KV k v) p"
      unfolding sr by blast
    obtain k v where kv: "p = (k, v)" by (cases p)
    with p have "(k, v) \<in> set m" "e = KV k v" by simp_all
    with wf_counts_val [OF wf] show "Count e = int (count_list qs (Color e))" by simp
  qed
  have "sorted (map (\<lambda>e. - Count e) (ranked rangeOrder m))"
    unfolding ranked_def by (rule sorted_sort_key)
  then have "sorted_wrt (\<lambda>a b. - Count a \<le> - Count b) (ranked rangeOrder m)"
    by (simp only: sorted_map)
  then show "sorted_wrt (\<lambda>a b. Count a \<ge> Count b) (ranked rangeOrder m)"
    by simp
qed

lemma sum_list_int_map:
  "(\<Sum>e\<leftarrow>es. int (g (h e))) = int (\<Sum>c\<leftarrow>map h es. g c)"
  by (induction es) simp_all

lemma ranked_count_sum:
  assumes perm: "mset (rangeOrder m) = mset m" and wf: "wf_counts qs m"
  shows "sum_list (map Count (ranked rangeOrder m)) = int (length qs)"
proof -
  note p = ranked_props [of rangeOrder m qs, OF perm wf]
  have "map Count (ranked rangeOrder m)
      = map (\<lambda>e. int (count_list qs (Color e))) (ranked rangeOrder m)"
    using p(3) by simp
  then have "sum_list (map Count (ranked rangeOrder m))
      = (\<Sum>e\<leftarrow>ranked rangeOrder m. int (count_list qs (Color e)))" by (rule arg_cong)
  also have "\<dots> = int (\<Sum>c\<leftarrow>map Color (ranked rangeOrder m). count_list qs c)"
    by (rule sum_list_int_map)
  also have "\<dots> = int (length qs)"
    using p(1) p(2) by (simp only: count_sum_distinct set_map)
  finally show ?thesis .
qed

lemma percent_bound:
  assumes "S \<le> T" and "0 < T"
  shows "real_of_int S / real_of_int T * 100 \<le> 100"
proof -
  from assms have "real_of_int S \<le> real_of_int T" by simp
  moreover from assms have "0 < real_of_int T" by simp
  ultimately have "real_of_int S / real_of_int T \<le> 1" by (simp add: divide_le_eq_1_pos)
  then have "real_of_int S / real_of_int T * 100 \<le> 1 * 100"
    by (rule mult_right_mono) simp
  then show ?thesis by (simp only: mult_1)
qed

lemma percent_sum:
  "(\<Sum>e\<leftarrow>es. real_of_int (Count e) / real_of_int T * 100) =
     real_of_int (sum_list (map Count es)) / real_of_int T * 100"
  by (induction es) (simp_all add: add_divide_distrib distrib_right)

lemma colorStats_Percent:
  "map Percent (colorStats es T) =
     map (\<lambda>e. fmul (fdiv (ofInt (Count e)) (ofInt T)) (Finite 100)) es"
  by (simp add: colorStats_def comp_def)

text \<open>
  C6, amended. For every image, every order in which the map is ranged over and every
  \<open>n \<ge> 0\<close>, \<^verbatim>\<open>topColors\<close> returns the first \<open>n\<close> entries of a list that has one
  entry for each quantized color of the image, no color left out, with the number of
  pixels of that color as its count, in order of non-increasing count. So it returns
  at most \<open>n\<close> entries, in order of non-increasing count. When it returns an entry, the
  number of pixels of the image is positive and the returned counts sum to at most
  that number, so the exact quotients count / pixels * 100 sum to at most 100. The
  percentages of \<^verbatim>\<open>logTopColorsJSON\<close>, one for each returned entry, are these quotients
  computed in \<^verbatim>\<open>float64\<close>, with the division and the multiplication rounded.
\<close>

theorem topColors_ranked:
  assumes perm: "\<forall>m. mset (rangeOrder m) = mset m" and n: "0 \<le> n"
  shows "\<exists>tops full. topColors rangeOrder img n = Some tops
     \<and> tops = take (nat n) full
     \<and> distinct (map Color full) \<and> Color ` set full = set (buckets img)
     \<and> (\<forall>e \<in> set full. Count e = int (count_list (buckets img) (Color e)))
     \<and> sorted_wrt (\<lambda>a b. Count a \<ge> Count b) full
     \<and> int (length tops) \<le> n
     \<and> sorted_wrt (\<lambda>a b. Count a \<ge> Count b) tops
     \<and> (tops = [] \<or> (0 < Dx (Bounds img) * Dy (Bounds img)
            \<and> sum_list (map Count tops) \<le> Dx (Bounds img) * Dy (Bounds img)))
     \<and> (\<Sum>e\<leftarrow>tops. real_of_int (Count e)
            / real_of_int (Dx (Bounds img) * Dy (Bounds img)) * 100) \<le> 100
     \<and> map Percent (colorStats tops (Dx (Bounds img) * Dy (Bounds img)))
         = map (\<lambda>e. fmul (fdiv (ofInt (Count e)) (ofInt (Dx (Bounds img) * Dy (Bounds img))))
                        (Finite 100)) tops"
proof -
  from countAll_scan [of img] obtain m
    where m: "countAll (scan img) [] = Some m" and wf: "wf_counts (buckets img) m" by blast
  from perm have pm: "mset (rangeOrder m) = mset m" by blast
  define full where "full = ranked rangeOrder m"
  define tops where "tops = take (nat n) full"
  note p = ranked_props [of rangeOrder m "buckets img", OF pm wf, folded full_def]
  have 1: "topColors rangeOrder img n = Some tops"
    unfolding tops_def full_def using m n by (rule topColors_ranked_eq)
  have 2: "int (length tops) \<le> n" using n by (simp add: tops_def)
  have 3: "sorted_wrt (\<lambda>a b. Count a \<ge> Count b) tops"
    unfolding tops_def using p(4) by (rule sorted_wrt_take)
  have nonneg: "\<forall>e \<in> set full. 0 \<le> Count e" using p(3) by simp
  have total: "sum_list (map Count full) = int (length (buckets img))"
    unfolding full_def using pm wf by (rule ranked_count_sum)
  have le: "sum_list (map Count tops) \<le> int (length (buckets img))"
    unfolding tops_def using sum_list_take_le [OF nonneg, of "nat n"] total by simp
  have 4: "tops = [] \<or> (0 < Dx (Bounds img) * Dy (Bounds img)
            \<and> sum_list (map Count tops) \<le> Dx (Bounds img) * Dy (Bounds img))"
  proof (cases "scan img = []")
    case True
    then have "buckets img = []" by (simp add: buckets_map)
    then have "full = []" using p(2) by simp
    then show ?thesis by (simp add: tops_def)
  next
    case False
    note a = length_scan_area [OF False]
    have "length (buckets img) = length (scan img)" by (simp add: buckets_map)
    with le a(2) have "sum_list (map Count tops) \<le> Dx (Bounds img) * Dy (Bounds img)" by simp
    with a(1) show ?thesis by simp
  qed
  have 5: "(\<Sum>e\<leftarrow>tops. real_of_int (Count e)
            / real_of_int (Dx (Bounds img) * Dy (Bounds img)) * 100) \<le> 100"
  proof (cases "tops = []")
    case True
    then show ?thesis by simp
  next
    case False
    with 4 have pos: "0 < Dx (Bounds img) * Dy (Bounds img)"
      and s: "sum_list (map Count tops) \<le> Dx (Bounds img) * Dy (Bounds img)" by simp_all
    from s pos have "real_of_int (sum_list (map Count tops))
        / real_of_int (Dx (Bounds img) * Dy (Bounds img)) * 100 \<le> 100"
      by (rule percent_bound)
    then show ?thesis by (simp only: percent_sum)
  qed
  note 6 = colorStats_Percent [of tops "Dx (Bounds img) * Dy (Bounds img)"]
  from 1 tops_def p 2 3 4 5 6 show ?thesis by blast
qed

lemma topColors_testImage:
  "topColors rev testImage 2 = Some [KV (RGB 240 32 0) 2, KV (RGB 240 240 240) 1]"
  by (simp add: topColors_def scan_testImage quantizeRGB_def quantStep_def)

theorem topColors_ranked_witness:
  "(\<forall>m :: countMap. mset (rev m) = mset m) \<and> (0 :: int) \<le> 2
   \<and> topColors rev testImage 2 = Some [KV (RGB 240 32 0) 2, KV (RGB 240 240 240) 1]
   \<and> sorted_wrt (\<lambda>a b. Count a \<ge> Count b) [KV (RGB 240 32 0) 2, KV (RGB 240 240 240) 1]
   \<and> (\<Sum>e\<leftarrow>[KV (RGB 240 32 0) 2, KV (RGB 240 240 240) 1]. real_of_int (Count e)
          / real_of_int (Dx (Bounds testImage) * Dy (Bounds testImage)) * 100) \<le> 100"
proof -
  have perm: "\<forall>m :: countMap. mset (rev m) = mset m" by simp
  have n: "(0 :: int) \<le> 2" by simp
  from topColors_ranked [OF perm n, of testImage] obtain tops
    where t: "topColors rev testImage 2 = Some tops"
      and s: "sorted_wrt (\<lambda>a b. Count a \<ge> Count b) tops"
      and p: "(\<Sum>e\<leftarrow>tops. real_of_int (Count e)
          / real_of_int (Dx (Bounds testImage) * Dy (Bounds testImage)) * 100) \<le> 100"
    by blast
  from t have "tops = [KV (RGB 240 32 0) 2, KV (RGB 240 240 240) 1]"
    by (simp add: topColors_testImage)
  with s p perm n topColors_testImage show ?thesis by blast
qed

lemma scan_nineImage:
  "scan nineImage =
     [RGB 0 255 0, RGB 0 0 255, RGB 255 0 0, RGB 255 0 0, RGB 255 0 0, RGB 255 0 0,
      RGB 255 0 0, RGB 255 0 0, RGB 255 0 0]"
  by (simp add: scan_def nineImage_def Rect_def upto.simps pixelAt_def)

lemma topColors_nineImage:
  "topColors rev nineImage 10 = Some [KV (RGB 240 0 0) 7, KV (RGB 0 0 240) 1, KV (RGB 0 240 0) 1]"
  by (simp add: topColors_def scan_nineImage quantizeRGB_def quantStep_def)

lemma ofInt_small: "ofInt 7 = Finite 7" "ofInt 1 = Finite 1" "ofInt 9 = Finite 9"
  by (simp_all add: ofInt_def round64_def ilog2_def bitLen.simps pow2_def roundEven_def Let_def)

lemma percent_7_of_9:
  "fmul (fdiv (ofInt 7) (ofInt 9)) (Finite 100) = Finite (5473124547151645 / 70368744177664)"
  by (simp add: ofInt_small round64_def ilog2_def bitLen.simps pow2_def roundEven_def Let_def)

lemma percent_1_of_9:
  "fmul (fdiv (ofInt 1) (ofInt 9)) (Finite 100) = Finite (3127499741229511 / 281474976710656)"
  by (simp add: ofInt_small round64_def ilog2_def bitLen.simps pow2_def roundEven_def Let_def)

text \<open>
  C6, as the specification states it, fails. For the image of 3 by 3 pixels with seven
  red pixels, a blue one and a green one, the counts are 7, 1 and 1 of 9 pixels, and the
  percentages computed in \<^verbatim>\<open>float64\<close> are 77.77777777777779, 11.11111111111111 and
  11.11111111111111: their sum is more than 100.
\<close>

theorem percent_sum_counterexample:
  "topColors rev nineImage 10
     = Some [KV (RGB 240 0 0) 7, KV (RGB 0 0 240) 1, KV (RGB 0 240 0) 1]
   \<and> Dx (Bounds nineImage) * Dy (Bounds nineImage) = 9
   \<and> map Percent (colorStats [KV (RGB 240 0 0) 7, KV (RGB 0 0 240) 1, KV (RGB 0 240 0) 1] 9)
       = [Finite (5473124547151645 / 70368744177664),
          Finite (3127499741229511 / 281474976710656),
          Finite (3127499741229511 / 281474976710656)]
   \<and> 100 < sum_list (map (\<lambda>s. value64 (Percent s))
               (colorStats [KV (RGB 240 0 0) 7, KV (RGB 0 0 240) 1, KV (RGB 0 240 0) 1] 9))"
proof -
  have d: "Dx (Bounds nineImage) * Dy (Bounds nineImage) = 9"
    by (simp add: nineImage_def Dx_def Dy_def Rect_def)
  have p: "map Percent (colorStats [KV (RGB 240 0 0) 7, KV (RGB 0 0 240) 1, KV (RGB 0 240 0) 1] 9)
       = [Finite (5473124547151645 / 70368744177664),
          Finite (3127499741229511 / 281474976710656),
          Finite (3127499741229511 / 281474976710656)]"
    by (simp add: colorStats_def percent_7_of_9 percent_1_of_9)
  have "sum_list (map (\<lambda>s. value64 (Percent s))
               (colorStats [KV (RGB 240 0 0) 7, KV (RGB 0 0 240) 1, KV (RGB 0 240 0) 1] 9))
      = 5473124547151645 / 70368744177664 + 3127499741229511 / 281474976710656
        + 3127499741229511 / 281474976710656"
    by (simp add: colorStats_def percent_7_of_9 percent_1_of_9 value64_def)
  then have s: "100 < sum_list (map (\<lambda>s. value64 (Percent s))
               (colorStats [KV (RGB 240 0 0) 7, KV (RGB 0 0 240) 1, KV (RGB 0 240 0) 1] 9))"
    by simp
  from topColors_nineImage d p s show ?thesis by simp
qed

section \<open>Appending to the statistics log\<close>

lemma splitLines_line: "CHR 0x0A \<notin> set l \<Longrightarrow> splitLines l = [l]"
  by (induction l) auto

lemma splitLines_append:
  "CHR 0x0A \<notin> set l \<Longrightarrow> splitLines (l @ CHR 0x0A # rest) = l # splitLines rest"
  by (induction l) auto

lemma splitLines_joinLines:
  "ls \<noteq> [] \<Longrightarrow> \<forall>l \<in> set ls. CHR 0x0A \<notin> set l \<Longrightarrow> splitLines (joinLines ls) = ls"
proof (induction ls rule: joinLines.induct)
  case 1
  then show ?case by simp
next
  case (2 l)
  then show ?case by (simp add: splitLines_line)
next
  case (3 l k ks)
  then show ?case by (simp add: splitLines_append)
qed

lemma recoverLines_map_filter:
  assumes "\<forall>l. trimSpace lib l = [] \<longrightarrow> unmarshalEntry lib l = None"
  shows "recoverLines lib ls = List.map_filter (unmarshalEntry lib) ls"
  using assms by (induction ls) (auto simp: List.map_filter_simps split: option.splits)

lemma readEntries_empty: "file = None \<or> file = Some [] \<Longrightarrow> readEntries lib file = []"
  by (auto simp: readEntries_def)

lemma readEntries_legacy:
  assumes "joinLines ls \<noteq> []" and "\<forall>l \<in> set ls. CHR 0x0A \<notin> set l"
    and "unmarshalEntries lib (joinLines ls) = None"
    and "\<forall>l. trimSpace lib l = [] \<longrightarrow> unmarshalEntry lib l = None"
  shows "readEntries lib (Some (joinLines ls)) = List.map_filter (unmarshalEntry lib) ls"
proof -
  from assms(1) have "ls \<noteq> []" by auto
  then have "splitLines (joinLines ls) = ls" using assms(2) by (rule splitLines_joinLines)
  with assms(1,3) recoverLines_map_filter [OF assms(4)] show ?thesis
    by (simp add: readEntries_def)
qed

lemma logTopColorsJSON_written:
  assumes "\<not> openFails fs" and "\<not> syncFails fs"
    and "encodeEntries lib (readEntries lib (contents fs) @ [newLogEntry now bounds tops totalPixels])
          = Some out"
  shows "logTopColorsJSON lib now fs bounds tops totalPixels = (None, fs\<lparr>contents := Some out\<rparr>)"
  using assms by (simp add: logTopColorsJSON_def Let_def)

text \<open>
  C3. When the file can be opened and synced and the encoder succeeds:
  if the file is absent or empty, the file becomes the encoding of the list whose
  only element is the new entry; if the file is the text of lines joined by newlines
  that does not parse as an array of entries, the file becomes the encoding of one
  list: the entries of the lines that parse, in the order of the lines, followed by
  the new entry. The lines that do not parse contribute nothing and no error is
  returned. (A blank line never parses with \<^verbatim>\<open>json.Unmarshal\<close>.)
\<close>

theorem logTopColorsJSON_append:
  assumes "\<not> openFails fs" and "\<not> syncFails fs"
  shows "(contents fs = None \<or> contents fs = Some [] \<longrightarrow>
            (\<forall>out. encodeEntries lib [newLogEntry now bounds tops totalPixels] = Some out \<longrightarrow>
               logTopColorsJSON lib now fs bounds tops totalPixels
                 = (None, fs\<lparr>contents := Some out\<rparr>)))
     \<and> (contents fs = Some (joinLines ls) \<and> joinLines ls \<noteq> []
          \<and> (\<forall>l \<in> set ls. CHR 0x0A \<notin> set l)
          \<and> unmarshalEntries lib (joinLines ls) = None
          \<and> (\<forall>l. trimSpace lib l = [] \<longrightarrow> unmarshalEntry lib l = None) \<longrightarrow>
            (\<forall>out. encodeEntries lib
                 (List.map_filter (unmarshalEntry lib) ls @ [newLogEntry now bounds tops totalPixels])
                   = Some out \<longrightarrow>
               logTopColorsJSON lib now fs bounds tops totalPixels
                 = (None, fs\<lparr>contents := Some out\<rparr>)))"
proof (intro conjI impI allI)
  fix out
  assume e: "contents fs = None \<or> contents fs = Some []"
    and o: "encodeEntries lib [newLogEntry now bounds tops totalPixels] = Some out"
  from e have "readEntries lib (contents fs) = []" by (rule readEntries_empty)
  with o have "encodeEntries lib (readEntries lib (contents fs) @ [newLogEntry now bounds tops totalPixels])
      = Some out" by simp
  with assms show "logTopColorsJSON lib now fs bounds tops totalPixels = (None, fs\<lparr>contents := Some out\<rparr>)"
    by (rule logTopColorsJSON_written)
next
  fix out
  assume l: "contents fs = Some (joinLines ls) \<and> joinLines ls \<noteq> []
          \<and> (\<forall>l \<in> set ls. CHR 0x0A \<notin> set l)
          \<and> unmarshalEntries lib (joinLines ls) = None
          \<and> (\<forall>l. trimSpace lib l = [] \<longrightarrow> unmarshalEntry lib l = None)"
    and o: "encodeEntries lib
                 (List.map_filter (unmarshalEntry lib) ls @ [newLogEntry now bounds tops totalPixels])
                   = Some out"
  from l have "readEntries lib (Some (joinLines ls)) = List.map_filter (unmarshalEntry lib) ls"
    by (intro readEntries_legacy) simp_all
  with l o have "encodeEntries lib (readEntries lib (contents fs) @ [newLogEntry now bounds tops totalPixels])
      = Some out" by simp
  with assms show "logTopColorsJSON lib now fs bounds tops totalPixels = (None, fs\<lparr>contents := Some out\<rparr>)"
    by (rule logTopColorsJSON_written)
qed

theorem logTopColorsJSON_append_witness:
  "logTopColorsJSON toyLib ''n'' \<lparr>contents = None, openFails = False, syncFails = False\<rparr>
       (Rect 0 0 2 2) [KV (RGB 240 32 0) 2] 4
     = (None, \<lparr>contents = Some ''n;'', openFails = False, syncFails = False\<rparr>)
   \<and> logTopColorsJSON toyLib ''n''
       \<lparr>contents = Some (joinLines [''A'', ''junk'', ''B'', []]),
        openFails = False, syncFails = False\<rparr>
       (Rect 0 0 2 2) [KV (RGB 240 32 0) 2] 4
     = (None, \<lparr>contents = Some ''a;b;n;'', openFails = False, syncFails = False\<rparr>)"
proof -
  let ?e = "newLogEntry ''n'' (Rect 0 0 2 2) [KV (RGB 240 32 0) 2] 4"
  let ?fs0 = "\<lparr>contents = None, openFails = False, syncFails = False\<rparr>"
  let ?ls = "[''A'', ''junk'', ''B'', []]"
  let ?fs1 = "\<lparr>contents = Some (joinLines ?ls), openFails = False, syncFails = False\<rparr>"
  have ts: "Timestamp ?e = ''n''" by (simp add: newLogEntry_def)
  have o0: "\<not> openFails ?fs0" "\<not> syncFails ?fs0" by simp_all
  have o1: "\<not> openFails ?fs1" "\<not> syncFails ?fs1" by simp_all
  have e0: "encodeEntries toyLib [?e] = Some ''n;''"
    by (simp add: toyLib_def ts)
  have blank: "\<forall>l. trimSpace toyLib l = [] \<longrightarrow> unmarshalEntry toyLib l = None"
    by (auto simp: toyLib_def)
  have legacy: "contents ?fs1 = Some (joinLines ?ls) \<and> joinLines ?ls \<noteq> []
      \<and> (\<forall>l \<in> set ?ls. CHR 0x0A \<notin> set l)
      \<and> unmarshalEntries toyLib (joinLines ?ls) = None
      \<and> (\<forall>l. trimSpace toyLib l = [] \<longrightarrow> unmarshalEntry toyLib l = None)"
    using blank by (simp add: toyLib_def)
  have e1: "encodeEntries toyLib (List.map_filter (unmarshalEntry toyLib) ?ls @ [?e])
      = Some ''a;b;n;''"
    by (simp add: toyLib_def List.map_filter_simps toyEntry_def ts)
  from logTopColorsJSON_append [OF o0, of toyLib "''n''" "Rect 0 0 2 2" "[KV (RGB 240 32 0) 2]" 4 ?ls] e0
  have 1: "logTopColorsJSON toyLib ''n'' ?fs0 (Rect 0 0 2 2) [KV (RGB 240 32 0) 2] 4
      = (None, ?fs0\<lparr>contents := Some ''n;''\<rparr>)"
    by simp
  from logTopColorsJSON_append [OF o1, of toyLib "''n''" "Rect 0 0 2 2" "[KV (RGB 240 32 0) 2]" 4 ?ls]
    legacy e1
  have 2: "logTopColorsJSON toyLib ''n'' ?fs1 (Rect 0 0 2 2) [KV (RGB 240 32 0) 2] 4
      = (None, ?fs1\<lparr>contents := Some ''a;b;n;''\<rparr>)"
    by blast
  from 1 2 show ?thesis by simp
qed

end
